theory Spec2Isabelle
  imports Main "HOL-Library.Word" "HOL-Library.Signed_Division"
begin

unbundle bit_operations_syntax

section \<open>Data model\<close>

text \<open>
  The package \<open>aesctr\<close> exists in two revisions: \<open>aesctr/ctr.go\<close>, where every
  \<open>ReadAt\<close> builds a fresh \<open>ctrState\<close> with \<open>initCTR\<close>, and \<open>unnamed/part_000\<close>,
  where one counter and one keystream buffer live in the reader and \<open>setCTR\<close> re-seeks
  them. Definitions of the second revision carry the suffix \<open>_p0\<close>.

  Conventions of the embedding.
  \<^item> Bytes are \<open>8 word\<close>; \<open>+\<close> wraps as Go's \<open>byte\<close> arithmetic does.
  \<^item> A Go slice is the list of its visible elements (\<open>len\<close> is \<open>length\<close>) together with
    the list of the elements of its backing array that lie between \<open>len\<close> and \<open>cap\<close>
    (the field \<open>x_spare\<close> for \<open>x.out\<close>), so \<open>cap(x.out)\<close> is
    \<open>length (x_out x) + length (x_spare x)\<close>.
  \<^item> Go's \<open>int\<close> and \<open>int64\<close> values are \<open>int\<close> where they are stored or may be
    negative (\<open>outUsed\<close>, \<open>off\<close>, \<open>bN\<close>, \<open>bOff\<close>, \<open>n\<close>), and \<open>nat\<close> where they
    are lengths. No operation of the package overflows 64 bits on values that fit there.
  \<^item> A run-time panic is a value of type \<open>panic\<close>; a call that never returns is \<open>None\<close>.
    So a result is \<open>(panic + 'a) option\<close>.
  \<^item> The block cipher and the byte source are parameters. \<open>Encrypt blk src\<close> is the block
    that \<open>Encrypt(dst, src)\<close> stores at the front of \<open>dst\<close>. A source maps the buffer
    and the offset to the bytes it stores at the front of the buffer, the count and the
    error it returns; it is a function, so the data behind it does not change between calls.
\<close>

type_synonym byte = "8 word"

datatype panic = IVLength | DivideByZero | SliceBounds | IndexRange

record Block =
  BlockSize :: nat
  Encrypt :: "byte list \<Rightarrow> byte list"

type_synonym 'e ReaderAt = "byte list \<Rightarrow> int \<Rightarrow> byte list \<times> int \<times> 'e option"

record 'e ctr =
  c_b :: Block
  c_iv :: "byte list"
  c_bs :: nat
  c_r :: "'e ReaderAt"

record ctrState =
  x_ctr :: "byte list"
  x_out :: "byte list"
  x_spare :: "byte list"
  x_outUsed :: int

record 'e ctr_p0 =
  p_b :: Block
  p_iv :: "byte list"
  p_x :: ctrState
  p_r :: "'e ReaderAt"

definition streamBufferSize :: nat where
  "streamBufferSize = 512"

section \<open>Utility routines\<close>

text \<open>Go's builtin \<open>copy(dst, src)\<close>: the first \<open>min (len dst) (len src)\<close> elements.\<close>

definition copy_bytes :: "byte list \<Rightarrow> byte list \<Rightarrow> byte list" where
  "copy_bytes dst src = take (length dst) src @ drop (length src) dst"

definition dup :: "byte list \<Rightarrow> byte list" where
  "dup p = copy_bytes (replicate (length p) 0) p"

text \<open>
  \<open>xorBytes\<close> returns the new contents of \<open>dst\<close> and \<open>n\<close>. The store \<open>dst[i]\<close> panics
  when \<open>dst\<close> is shorter than \<open>n\<close>. \<open>dst\<close> and \<open>a\<close> are either the same slice or
  disjoint: each \<open>a[i]\<close> is read before \<open>dst[i]\<close> is written.
\<close>

definition xorBytes :: "byte list \<Rightarrow> byte list \<Rightarrow> byte list \<Rightarrow> panic + byte list \<times> nat" where
  "xorBytes dst a bb =
     (let n = (if length bb < length a then length bb else length a)
      in if length dst < n then Inl IndexRange
         else Inr (map2 (XOR) (take n a) (take n bb) @ drop n dst, n))"

section \<open>The counter\<close>

text \<open>
  The loop under the comment \<open>Increment counter\<close>; the first argument is \<open>i + 1\<close>.
\<close>

fun increment_loop :: "nat \<Rightarrow> byte list \<Rightarrow> byte list" where
  "increment_loop 0 c = c"
| "increment_loop (Suc i) c =
     (let c1 = c[i := c ! i + 1]
      in if c1 ! i \<noteq> 0 then c1 else increment_loop i c1)"

definition increment :: "byte list \<Rightarrow> byte list" where
  "increment c = increment_loop (length c) c"

text \<open>
  The loop under \<open>Fill ctr\<close> in \<open>initCTR\<close>; the first argument is \<open>i + 1\<close>.
  Go's \<open>%\<close> truncates (\<open>smod\<close>), \<open>byte(...)\<close> keeps the low eight bits, \<open>>>\<close> on
  \<open>int64\<close> is the arithmetic shift.
\<close>

fun initCTR_fill_ctr :: "nat \<Rightarrow> int \<Rightarrow> byte list \<Rightarrow> byte list" where
  "initCTR_fill_ctr 0 bN c = c"
| "initCTR_fill_ctr (Suc i) bN c =
     (if bN = 0 then c
      else let m = (word_of_int (bN smod 256) :: byte);
               bN1 = drop_bit 8 bN;
               tmp = c ! i;
               c1 = c[i := c ! i + m];
               bN2 = (if c1 ! i < tmp then bN1 + 1 else bN1)
           in initCTR_fill_ctr i bN2 c1)"

section \<open>Keystream buffer\<close>

text \<open>
  The \<open>for remain <= len(x.out)-bs\<close> loop of \<open>refill\<close> and of \<open>setCTR\<close>, on the slice
  \<open>out\<close> that the loop sees. It does not end when the block size is 0.
\<close>

partial_function (option) fill_out ::
  "Block \<Rightarrow> nat \<Rightarrow> byte list \<Rightarrow> byte list \<Rightarrow> (nat \<times> byte list \<times> byte list) option" where
  "fill_out blk remain out c =
     (if int remain \<le> int (length out) - int (BlockSize blk)
      then fill_out blk (remain + BlockSize blk)
             (take remain out @ copy_bytes (drop remain out) (Encrypt blk c))
             (increment c)
      else Some (remain, out, c))"

definition refill :: "Block \<Rightarrow> ctrState \<Rightarrow> (panic + ctrState) option" where
  "refill blk x =
     (if x_outUsed x < 0 \<or> int (length (x_out x)) < x_outUsed x then Some (Inl SliceBounds)
      else let remain = length (x_out x) - nat (x_outUsed x);
               out1 = copy_bytes (x_out x) (drop (nat (x_outUsed x)) (x_out x));
               out2 = out1 @ x_spare x
           in case fill_out blk remain out2 (x_ctr x) of
                None \<Rightarrow> None
              | Some (remain1, out3, c) \<Rightarrow>
                  Some (Inr \<lparr>x_ctr = c, x_out = take remain1 out3,
                             x_spare = drop remain1 out3, x_outUsed = 0\<rparr>))"

text \<open>
  \<open>XORKeyStream\<close> returns the state and the contents of the whole of \<open>dst\<close>.
\<close>

partial_function (option) XORKeyStream ::
  "Block \<Rightarrow> ctrState \<Rightarrow> byte list \<Rightarrow> byte list \<Rightarrow> (panic + ctrState \<times> byte list) option" where
  "XORKeyStream blk x dst src =
     (if length src > 0
      then Option.bind
             (if x_outUsed x \<ge> int (length (x_out x)) - int (BlockSize blk)
              then refill blk x else Some (Inr x))
             (\<lambda>r. case r of
                Inl e \<Rightarrow> Some (Inl e)
              | Inr x1 \<Rightarrow>
                  if x_outUsed x1 < 0 \<or> int (length (x_out x1)) < x_outUsed x1
                  then Some (Inl SliceBounds)
                  else (case xorBytes dst src (drop (nat (x_outUsed x1)) (x_out x1)) of
                     Inl e \<Rightarrow> Some (Inl e)
                   | Inr (dst1, n) \<Rightarrow>
                       Option.bind
                         (XORKeyStream blk (x1\<lparr>x_outUsed := x_outUsed x1 + int n\<rparr>)
                            (drop n dst1) (drop n src))
                         (\<lambda>r2. case r2 of
                            Inl e \<Rightarrow> Some (Inl e)
                          | Inr (x2, dst2) \<Rightarrow> Some (Inr (x2, take n dst1 @ dst2)))))
      else Some (Inr (x, dst)))"

section \<open>The reader of ctr.go\<close>

definition NewCTRReaderAt :: "Block \<Rightarrow> byte list \<Rightarrow> 'e ReaderAt \<Rightarrow> panic + 'e ctr" where
  "NewCTRReaderAt block iv reader =
     (if length iv \<noteq> BlockSize block then Inl IVLength
      else let bufSize = (if streamBufferSize < BlockSize block then BlockSize block
                          else streamBufferSize)
           in Inr \<lparr>c_b = block, c_iv = dup iv, c_bs = bufSize, c_r = reader\<rparr>)"

definition initCTR :: "'e ctr \<Rightarrow> int \<Rightarrow> int \<Rightarrow> (panic + ctrState) option" where
  "initCTR c bN bOff =
     (let x = \<lparr>x_ctr = dup (c_iv c), x_out = [], x_spare = replicate (c_bs c) 0,
               x_outUsed = 0\<rparr>;
          x1 = x\<lparr>x_ctr := initCTR_fill_ctr (length (x_ctr x)) bN
                             (copy_bytes (x_ctr x) (c_iv c))\<rparr>
      in case refill (c_b c) x1 of
           None \<Rightarrow> None
         | Some (Inl e) \<Rightarrow> Some (Inl e)
         | Some (Inr x2) \<Rightarrow>
             if bOff < 0 \<or> int (length (x_out x2)) < bOff then Some (Inl SliceBounds)
             else Some (Inr (x2\<lparr>x_out := drop (nat bOff) (x_out x2)\<rparr>)))"

text \<open>
  \<open>ReadAt\<close> returns the contents of \<open>p\<close>, \<open>n\<close> and \<open>err\<close>.
\<close>

definition ReadAt ::
  "'e ctr \<Rightarrow> byte list \<Rightarrow> int \<Rightarrow> (panic + byte list \<times> int \<times> 'e option) option" where
  "ReadAt c p off =
     (if BlockSize (c_b c) = 0 then Some (Inl DivideByZero)
      else let bOff = off smod int (BlockSize (c_b c));
               bStart = off - bOff;
               bN = bStart sdiv int (BlockSize (c_b c))
           in case initCTR c bN bOff of
                None \<Rightarrow> None
              | Some (Inl e) \<Rightarrow> Some (Inl e)
              | Some (Inr state) \<Rightarrow>
                  (case c_r c p off of (dat, n, err) \<Rightarrow>
                     let p1 = copy_bytes p dat
                     in if err \<noteq> None then Some (Inr (p1, n, err))
                        else (case XORKeyStream (c_b c) state p1 p1 of
                                None \<Rightarrow> None
                              | Some (Inl e) \<Rightarrow> Some (Inl e)
                              | Some (Inr (state1, p2)) \<Rightarrow> Some (Inr (p2, n, err)))))"

section \<open>The reader of part_000\<close>

text \<open>
  In this revision the fields \<open>ctr\<close>, \<open>out\<close> and \<open>outUsed\<close> are fields of the reader
  itself; here they are the \<open>ctrState\<close> held in \<open>p_x\<close>, so that \<open>refill\<close> and
  \<open>XORKeyStream\<close>, whose bodies are the same text in both revisions, are translated once.
  The mutex is not modelled: calls are taken one after the other.
\<close>

definition NewCTRReaderAt_p0 :: "Block \<Rightarrow> byte list \<Rightarrow> 'e ReaderAt \<Rightarrow> panic + 'e ctr_p0" where
  "NewCTRReaderAt_p0 block iv reader =
     (if length iv \<noteq> BlockSize block then Inl IVLength
      else let bufSize = (if streamBufferSize < BlockSize block then BlockSize block
                          else streamBufferSize)
           in Inr \<lparr>p_b = block, p_iv = dup iv,
                   p_x = \<lparr>x_ctr = dup iv, x_out = [], x_spare = replicate bufSize 0,
                          x_outUsed = 0\<rparr>,
                   p_r = reader\<rparr>)"

definition setCTR :: "'e ctr_p0 \<Rightarrow> int \<Rightarrow> 'e ctr_p0 option" where
  "setCTR x bN =
     (let c0 = copy_bytes (x_ctr (p_x x)) (p_iv x);
          c1 = (increment ^^ nat bN) c0
      in case fill_out (p_b x) 0 (x_out (p_x x)) c1 of
           None \<Rightarrow> None
         | Some (remain, out1, c2) \<Rightarrow>
             Some (x\<lparr>p_x := \<lparr>x_ctr = c2, x_out = take remain out1,
                              x_spare = drop remain out1 @ x_spare (p_x x),
                              x_outUsed = 0\<rparr>\<rparr>))"

definition ReadAt_p0 ::
  "'e ctr_p0 \<Rightarrow> byte list \<Rightarrow> int \<Rightarrow>
     (panic + 'e ctr_p0 \<times> byte list \<times> int \<times> 'e option) option" where
  "ReadAt_p0 x p off =
     (if BlockSize (p_b x) = 0 then Some (Inl DivideByZero)
      else let bOff = off smod int (BlockSize (p_b x));
               bStart = off - bOff;
               bN = bStart sdiv int (BlockSize (p_b x))
           in case setCTR x bN of
                None \<Rightarrow> None
              | Some x1 \<Rightarrow>
                  (case p_r x1 p off of (dat, n, err) \<Rightarrow>
                     let p1 = copy_bytes p dat
                     in if err \<noteq> None then Some (Inr (x1, p1, n, err))
                        else (case XORKeyStream (p_b x1) (p_x x1) p1 p1 of
                                None \<Rightarrow> None
                              | Some (Inl e) \<Rightarrow> Some (Inl e)
                              | Some (Inr (state1, p2)) \<Rightarrow>
                                  Some (Inr (x1\<lparr>p_x := state1\<rparr>, p2, n, err)))))"

section \<open>Reference notions\<close>

text \<open>The value of a byte sequence read as a big-endian unsigned integer.\<close>

definition be_val :: "byte list \<Rightarrow> nat" where
  "be_val c = foldl (\<lambda>a b. a * 256 + unat b) 0 c"

text \<open>
  A cipher is well formed when it maps a block to a block. \<open>ks_blocks blk c k\<close> is the
  keystream of \<open>k\<close> blocks that starts at the counter \<open>c\<close>, and \<open>ks_at blk c i\<close> its
  byte \<open>i\<close>. \<open>fill_steps\<close> is \<open>fill_out\<close> run for a given number of rounds.
  \<open>pending x\<close> is the unconsumed tail of the buffer, \<open>cap x\<close> the capacity of \<open>x.out\<close>,
  \<open>stream_at blk x i\<close> the byte \<open>i\<close> of the keystream that the state \<open>x\<close> is about to
  deliver: the pending bytes, then the blocks from the counter of \<open>x\<close> on.
  \<open>refill_blocks blk x\<close> is the number of blocks that fit in the free space of \<open>x\<close>.
\<close>

definition wf_Block :: "Block \<Rightarrow> bool" where
  "wf_Block blk \<longleftrightarrow> (\<forall>c. length c = BlockSize blk \<longrightarrow> length (Encrypt blk c) = BlockSize blk)"

fun fill_steps :: "Block \<Rightarrow> nat \<Rightarrow> nat \<Rightarrow> byte list \<Rightarrow> byte list \<Rightarrow> nat \<times> byte list \<times> byte list" where
  "fill_steps blk 0 remain out c = (remain, out, c)"
| "fill_steps blk (Suc k) remain out c =
     fill_steps blk k (remain + BlockSize blk)
       (take remain out @ copy_bytes (drop remain out) (Encrypt blk c)) (increment c)"

definition ks_at :: "Block \<Rightarrow> byte list \<Rightarrow> nat \<Rightarrow> byte" where
  "ks_at blk c i = Encrypt blk ((increment ^^ (i div BlockSize blk)) c) ! (i mod BlockSize blk)"

definition pending :: "ctrState \<Rightarrow> byte list" where
  "pending x = drop (nat (x_outUsed x)) (x_out x)"

definition stream_at :: "Block \<Rightarrow> ctrState \<Rightarrow> nat \<Rightarrow> byte" where
  "stream_at blk x i =
     (if i < length (pending x) then pending x ! i
      else ks_at blk (x_ctr x) (i - length (pending x)))"

fun ks_blocks :: "Block \<Rightarrow> byte list \<Rightarrow> nat \<Rightarrow> byte list" where
  "ks_blocks blk c 0 = []"
| "ks_blocks blk c (Suc k) = Encrypt blk c @ ks_blocks blk (increment c) k"

definition cap :: "ctrState \<Rightarrow> nat" where
  "cap x = length (x_out x) + length (x_spare x)"

definition state_ok :: "Block \<Rightarrow> ctrState \<Rightarrow> bool" where
  "state_ok blk x \<longleftrightarrow>
     0 \<le> x_outUsed x \<and> x_outUsed x \<le> int (length (x_out x)) \<and> length (x_ctr x) = BlockSize blk"

definition refill_blocks :: "Block \<Rightarrow> ctrState \<Rightarrow> nat" where
  "refill_blocks blk x = (cap x - length (pending x)) div BlockSize blk"

text \<open>
  \<open>stuck\<close> describes a state from which \<open>XORKeyStream\<close> makes no progress: the buffer
  is used up and its capacity is below one block. \<open>inv_p0\<close> is the invariant of the reader
  of part_000 between calls.
\<close>

definition stuck :: "Block \<Rightarrow> ctrState \<Rightarrow> byte list \<Rightarrow> bool" where
  "stuck blk x src \<longleftrightarrow>
     1 \<le> BlockSize blk \<and> src \<noteq> [] \<and> x_outUsed x = int (length (x_out x))
     \<and> cap x < BlockSize blk"

definition never_stuck ::
  "Block \<Rightarrow> ctrState \<Rightarrow> byte list \<Rightarrow> byte list \<Rightarrow> (panic + ctrState \<times> byte list) \<Rightarrow> bool" where
  "never_stuck blk x dst src y \<longleftrightarrow> \<not> stuck blk x src"

definition inv_p0 :: "'e ctr_p0 \<Rightarrow> bool" where
  "inv_p0 x \<longleftrightarrow>
     1 \<le> BlockSize (p_b x) \<and> length (p_iv x) = BlockSize (p_b x)
     \<and> length (x_ctr (p_x x)) = BlockSize (p_b x) \<and> BlockSize (p_b x) \<le> cap (p_x x)"

text \<open>
  Standard counter mode (NIST SP 800-38A, the sequential stream that the package's test
  encrypts with): block \<open>j\<close> of the keystream is the encryption of the initial counter
  plus \<open>j\<close>, as a big-endian number of the counter's width, and the ciphertext is the
  plaintext XOR the keystream. \<open>be_bytes n v\<close> writes \<open>v\<close> on \<open>n\<close> bytes, big-endian.
\<close>

fun be_bytes :: "nat \<Rightarrow> nat \<Rightarrow> byte list" where
  "be_bytes 0 v = []"
| "be_bytes (Suc n) v = be_bytes n (v div 256) @ [of_nat (v mod 256)]"

definition std_counter :: "byte list \<Rightarrow> nat \<Rightarrow> byte list" where
  "std_counter iv j = be_bytes (length iv) ((be_val iv + j) mod 2 ^ (8 * length iv))"

definition std_keystream :: "Block \<Rightarrow> byte list \<Rightarrow> nat \<Rightarrow> byte" where
  "std_keystream blk iv i =
     Encrypt blk (std_counter iv (i div BlockSize blk)) ! (i mod BlockSize blk)"

definition std_ctr_encrypt :: "Block \<Rightarrow> byte list \<Rightarrow> byte list \<Rightarrow> byte list" where
  "std_ctr_encrypt blk iv pt = map (\<lambda>i. pt ! i XOR std_keystream blk iv i) [0..<length pt]"

text \<open>
  Collaborators for concrete runs. \<open>slice_source s\<close> is a source backed by the byte
  sequence \<open>s\<close>, as the \<open>bytes.Reader\<close> that the package's test reads from: a negative
  offset is an error, an offset at or after the end is end-of-file with no bytes, and a short
  read returns the bytes that are there with end-of-file. \<open>xor_Block n k\<close> is a cipher of
  block size \<open>n\<close> that XORs every byte with \<open>k\<close>. \<open>outcome_p0\<close> drops the reader from a
  result of \<open>ReadAt_p0\<close>.
\<close>

datatype io_error = EOF | NegativeOffset

definition slice_source :: "byte list \<Rightarrow> io_error ReaderAt" where
  "slice_source s p off =
     (if off < 0 then ([], 0, Some NegativeOffset)
      else if int (length s) \<le> off then ([], 0, Some EOF)
      else let dat = take (length p) (drop (nat off) s)
           in (dat, int (length dat), if length dat < length p then Some EOF else None))"

definition xor_Block :: "nat \<Rightarrow> byte \<Rightarrow> Block" where
  "xor_Block n k = \<lparr>BlockSize = n, Encrypt = map (\<lambda>b. b XOR k)\<rparr>"

definition outcome_p0 ::
  "(panic + 'e ctr_p0 \<times> byte list \<times> int \<times> 'e option) option
     \<Rightarrow> (panic + byte list \<times> int \<times> 'e option) option" where
  "outcome_p0 r = map_option (map_sum id snd) r"

text \<open>
  \<open>cursor_ok\<close> is the invariant of the cursor; \<open>keeps_cursor\<close> and \<open>no_iv_panic\<close> are
  the properties of a result of \<open>XORKeyStream\<close> that are proved by induction on the loop.
  \<open>aligned_result\<close> is what a read of part_000 delivers: the source's outcome, the buffer
  XORed with the keystream that starts at the block of the offset.
\<close>

definition cursor_ok :: "ctrState \<Rightarrow> bool" where
  "cursor_ok x \<longleftrightarrow> 0 \<le> x_outUsed x \<and> x_outUsed x \<le> int (length (x_out x))"

definition keeps_cursor ::
  "Block \<Rightarrow> ctrState \<Rightarrow> byte list \<Rightarrow> byte list \<Rightarrow> (panic + ctrState \<times> byte list) \<Rightarrow> bool" where
  "keeps_cursor blk x dst src y \<longleftrightarrow>
     (cursor_ok x \<longrightarrow> (case y of Inl e \<Rightarrow> True | Inr (x1, d) \<Rightarrow> cursor_ok x1))"

definition no_iv_panic ::
  "Block \<Rightarrow> ctrState \<Rightarrow> byte list \<Rightarrow> byte list \<Rightarrow> (panic + ctrState \<times> byte list) \<Rightarrow> bool" where
  "no_iv_panic blk x dst src y \<longleftrightarrow> y \<noteq> Inl IVLength"

definition aligned_result ::
  "Block \<Rightarrow> byte list \<Rightarrow> 'e ReaderAt \<Rightarrow> byte list \<Rightarrow> int \<Rightarrow> byte list \<times> int \<times> 'e option" where
  "aligned_result blk iv rd p off =
     (case rd p off of (dat, n, err) \<Rightarrow>
        if err \<noteq> None then (copy_bytes p dat, n, err)
        else (map (\<lambda>i. copy_bytes p dat ! i XOR
                         ks_at blk iv (nat (off div int (BlockSize blk)) * BlockSize blk + i))
                [0..<length p], n, err))"

text \<open>
  Inputs of the concrete runs. \<open>demo_ctr\<close> and \<open>demo_ctr_p0\<close> are the readers that the two
  constructors build for a cipher of block size 4 over a source of five bytes, and
  \<open>demo_state\<close> a half-consumed buffer of a cipher of block size 2. \<open>wide_ctr\<close> is the reader
  of ctr.go for a cipher of block size 512 over the standard encryption of 2000 bytes, and
  \<open>wide_state\<close> the state that its \<open>initCTR\<close> builds for the offset 1. \<open>test_ctr_p0\<close> is the
  reader of part_000 for a cipher of block size 16 and the counter of the package's test, over
  the standard encryption of 32 bytes.
\<close>

definition demo_iv :: "byte list" where
  "demo_iv = [0, 0, 255, 255]"

definition demo_ctr :: "io_error ctr" where
  "demo_ctr = \<lparr>c_b = xor_Block 4 90, c_iv = demo_iv, c_bs = 512,
               c_r = slice_source [1, 2, 3, 4, 5]\<rparr>"

definition demo_ctr_p0 :: "io_error ctr_p0" where
  "demo_ctr_p0 = \<lparr>p_b = xor_Block 4 90, p_iv = demo_iv,
                  p_x = \<lparr>x_ctr = demo_iv, x_out = [], x_spare = replicate 512 0, x_outUsed = 0\<rparr>,
                  p_r = slice_source [1, 2, 3, 4, 5]\<rparr>"

definition demo_state :: ctrState where
  "demo_state = \<lparr>x_ctr = [0, 255], x_out = [7, 8, 9], x_spare = [0, 0, 0, 0, 0], x_outUsed = 2\<rparr>"

definition wide_src :: "io_error ReaderAt" where
  "wide_src = slice_source (std_ctr_encrypt (xor_Block 512 90) (replicate 512 0) (replicate 2000 7))"

definition wide_ctr :: "io_error ctr" where
  "wide_ctr = \<lparr>c_b = xor_Block 512 90, c_iv = replicate 512 0, c_bs = 512, c_r = wide_src\<rparr>"

definition wide_state :: ctrState where
  "wide_state = \<lparr>x_ctr = increment (replicate 512 0), x_out = replicate 511 90, x_spare = [],
                 x_outUsed = 0\<rparr>"

definition test_iv :: "byte list" where
  "test_iv = [0, 1, 2, 3, 4, 5, 6, 7, 8, 9, 10, 11, 12, 13, 14, 15]"

definition test_src :: "io_error ReaderAt" where
  "test_src = slice_source (std_ctr_encrypt (xor_Block 16 90) test_iv (replicate 32 7))"

definition test_ctr_p0 :: "io_error ctr_p0" where
  "test_ctr_p0 = \<lparr>p_b = xor_Block 16 90, p_iv = test_iv,
                  p_x = \<lparr>x_ctr = test_iv, x_out = [], x_spare = replicate 512 0, x_outUsed = 0\<rparr>,
                  p_r = test_src\<rparr>"

section \<open>Counter arithmetic\<close>


lemma unat_byte_lt: "unat (b::byte) < 256"
  using unsigned_less[of b, where 'a=nat] by simp

lemma unat_byte_add: "unat ((a::byte) + b) = (unat a + unat b) mod 256"
  by (simp add: unat_word_ariths)

lemma byte_zero_iff: "(b::byte) = 0 \<longleftrightarrow> unat b = 0"
  by (simp add: unsigned_eq_0_iff)

lemma byte_succ_unat: "(b::byte) + 1 \<noteq> 0 \<Longrightarrow> unat (b + 1) = unat b + 1"
proof -
  assume "b + 1 \<noteq> 0"
  then have "(unat b + 1) mod 256 \<noteq> 0"
    using unat_byte_add[of b 1] by (simp add: byte_zero_iff)
  moreover have "unat b < 256" by (rule unat_byte_lt)
  ultimately have "unat b + 1 < 256" by (cases "unat b + 1 = 256") auto
  then show ?thesis using unat_byte_add[of b 1] by simp
qed

lemma byte_succ_zero: "(b::byte) + 1 = 0 \<Longrightarrow> unat b = 255"
proof -
  assume "b + 1 = 0"
  then have "(unat b + 1) mod 256 = 0"
    using unat_byte_add[of b 1] by (simp add: byte_zero_iff)
  moreover have "unat b < 256" by (rule unat_byte_lt)
  ultimately show ?thesis by (cases "unat b + 1 = 256") auto
qed

lemma be_val_Nil [simp]: "be_val [] = 0" by (simp add: be_val_def)
lemma be_val_snoc [simp]: "be_val (xs @ [b]) = be_val xs * 256 + unat b" by (simp add: be_val_def)

lemma be_val_lt: "be_val c < 256 ^ length c"
proof (induction c rule: rev_induct)
  case Nil show ?case by simp
next
  case (snoc b xs)
  have "unat b < 256" by (rule unat_byte_lt)
  with snoc show ?case by simp
qed

lemma increment_loop_length [simp]: "length (increment_loop i c) = length c"
  by (induction i arbitrary: c) (simp_all add: Let_def)

lemma increment_loop_nth: "i \<le> j \<Longrightarrow> increment_loop i c ! j = c ! j"
  by (induction i arbitrary: c) (simp_all add: Let_def)

lemma take_Suc_upd: "i < length c \<Longrightarrow> take (Suc i) (c[i := v]) = take i c @ [v]"
  by (simp add: take_Suc_conv_app_nth)

lemma increment_loop_val:
  "i \<le> length c \<Longrightarrow>
   be_val (take i (increment_loop i c)) = (be_val (take i c) + 1) mod 256 ^ i"
proof (induction i arbitrary: c)
  case 0 show ?case by simp
next
  case (Suc i)
  let ?c1 = "c[i := c ! i + 1]"
  have il: "i < length c" using Suc.prems by simp
  have tk: "take (Suc i) c = take i c @ [c ! i]" using il by (simp add: take_Suc_conv_app_nth)
  have V: "be_val (take i c) < 256 ^ i" using be_val_lt[of "take i c"] il by simp
  show ?case
  proof (cases "c ! i + 1 = 0")
    case False
    have u: "unat (c ! i + 1) = unat (c ! i) + 1" using False by (rule byte_succ_unat)
    have ub: "unat (c ! i + 1) < 256" by (rule unat_byte_lt)
    have "be_val (take i c) * 256 + unat (c ! i) + 1 < 256 ^ i * 256"
    proof -
      have "be_val (take i c) * 256 + 256 \<le> 256 ^ i * 256" using V
        by (metis Suc_leI mult_Suc mult.commute add.commute mult_le_mono1)
      then show ?thesis using ub u by linarith
    qed
    then show ?thesis using False il u by (simp add: Let_def take_Suc_upd tk)
  next
    case True
    have u: "unat (c ! i) = 255" using True by (rule byte_succ_zero)
    have r: "increment_loop (Suc i) c = increment_loop i ?c1" using True il by (simp add: Let_def)
    have t1: "take i ?c1 = take i c" by simp
    have n: "increment_loop i ?c1 ! i = 0" using True il by (simp add: increment_loop_nth)
    have "take (Suc i) (increment_loop i ?c1) = take i (increment_loop i ?c1) @ [0]"
      using il n by (simp add: take_Suc_conv_app_nth)
    moreover have "be_val (take i (increment_loop i ?c1)) = (be_val (take i c) + 1) mod 256 ^ i"
      using Suc.IH[of ?c1] il t1 by simp
    moreover have "(be_val (take i c) * 256 + 255 + 1) mod 256 ^ Suc i
        = ((be_val (take i c) + 1) mod 256 ^ i) * 256"
    proof -
      have "be_val (take i c) * 256 + 255 + 1 = (be_val (take i c) + 1) * 256" by simp
      moreover have "(256::nat) ^ Suc i = 256 ^ i * 256" by simp
      ultimately show ?thesis by (metis mult_mod_left)
    qed
    ultimately show ?thesis using r u by (simp add: tk del: power_Suc)
  qed
qed

lemma increment_length [simp]: "length (increment c) = length c"
  by (simp add: increment_def)

lemma increment_val: "be_val (increment c) = (be_val c + 1) mod 256 ^ length c"
  using increment_loop_val[of "length c" c] by (simp add: increment_def)

lemma byte_less_iff: "(a::byte) + m < a \<longleftrightarrow> 256 \<le> unat a + unat m"
proof -
  have a: "unat a < 256" and m: "unat m < 256" by (rule unat_byte_lt)+
  have "(a + m < a) = (unat (a + m) < unat a)" by (simp add: word_less_nat_alt)
  also have "\<dots> = ((unat a + unat m) mod 256 < unat a)" by (simp add: unat_byte_add)
  also have "\<dots> = (256 \<le> unat a + unat m)"
  proof (cases "256 \<le> unat a + unat m")
    case True
    then have "(unat a + unat m) mod 256 = unat a + unat m - 256"
      using a m by (simp add: mod_if)
    then show ?thesis using True a m by simp
  next
    case False
    then show ?thesis by simp
  qed
  finally show ?thesis .
qed

lemma initCTR_fill_ctr_length [simp]: "length (initCTR_fill_ctr i bN c) = length c"
  by (induction i arbitrary: bN c) (simp_all add: Let_def)

lemma initCTR_fill_ctr_nth: "i \<le> j \<Longrightarrow> initCTR_fill_ctr i bN c ! j = c ! j"
  by (induction i arbitrary: bN c) (simp_all add: Let_def)

lemma unat_byte_of_int: "0 \<le> k \<Longrightarrow> unat (word_of_int (k smod 256) :: byte) = nat k mod 256"
proof -
  assume k: "0 \<le> k"
  have s: "k smod 256 = k mod 256" using k by (cases "k = 0") (simp_all add: smod_int_alt_def sgn_if)
  have "unat (word_of_int (k mod 256) :: byte) = nat (k mod 256)"
    by (simp add: unsigned_of_int take_bit_eq_mod)
  then show ?thesis using k s by (simp add: nat_mod_distrib)
qed

lemma split_arith:
  fixes V u b :: nat
  shows "(V * 256 + u + b) mod 256 ^ Suc i
       = ((V + (b div 256 + (u + b mod 256) div 256)) mod 256 ^ i) * 256 + (u + b mod 256) mod 256"
proof -
  let ?a = "V * 256 + u + b"
  have d: "?a div 256 = V + (b div 256 + (u + b mod 256) div 256)"
  proof -
    have "?a = (V + b div 256) * 256 + (u + b mod 256)" by (simp add: algebra_simps)
    then have "?a div 256 = (V + b div 256) + (u + b mod 256) div 256"
      by (metis div_mult_self3 add.commute zero_neq_numeral)
    then show ?thesis by simp
  qed
  have m: "?a mod 256 = (u + b mod 256) mod 256"
    by (metis add.assoc mod_add_right_eq mod_mult_self4 mult.commute)
  have "?a mod (256 * 256 ^ i) = 256 * (?a div 256 mod 256 ^ i) + ?a mod 256"
    by (rule mod_mult2_eq)
  then show ?thesis by (simp add: d m mult.commute)
qed

lemma initCTR_fill_ctr_val:
  "i \<le> length c \<Longrightarrow> 0 \<le> bN \<Longrightarrow>
   be_val (take i (initCTR_fill_ctr i bN c)) = (be_val (take i c) + nat bN) mod 256 ^ i"
proof (induction i arbitrary: bN c)
  case 0 show ?case by simp
next
  case (Suc i)
  have il: "i < length c" using Suc.prems by simp
  have tk: "take (Suc i) c = take i c @ [c ! i]" using il by (simp add: take_Suc_conv_app_nth)
  show ?case
  proof (cases "bN = 0")
    case True
    have "be_val (take (Suc i) c) < 256 ^ Suc i" using be_val_lt[of "take (Suc i) c"] il by simp
    then show ?thesis using True by simp
  next
    case False
    define m :: byte where "m = word_of_int (bN smod 256)"
    define c1 where "c1 = c[i := c ! i + m]"
    define carry :: nat where "carry = (unat (c ! i) + nat bN mod 256) div 256"
    define bN2 where "bN2 = (if c1 ! i < c ! i then drop_bit 8 bN + 1 else drop_bit 8 bN)"
    have um: "unat m = nat bN mod 256" using Suc.prems by (simp add: m_def unat_byte_of_int)
    have ui: "unat (c ! i) < 256" by (rule unat_byte_lt)
    have c1i: "c1 ! i = c ! i + m" using il by (simp add: c1_def)
    have cy: "carry = (if c1 ! i < c ! i then 1 else 0)"
      using ui um unat_byte_lt[of m] by (auto simp: carry_def c1i byte_less_iff div_eq_0_iff not_le)
    have db: "drop_bit 8 bN = bN div 256" by (simp add: drop_bit_eq_div)
    have dnn: "0 \<le> bN div 256" using Suc.prems by (simp add: pos_imp_zdiv_nonneg_iff)
    have b2: "0 \<le> bN2" using dnn by (simp add: bN2_def db)
    have nb2: "nat bN2 = nat bN div 256 + carry"
      using Suc.prems dnn by (simp add: bN2_def db cy nat_div_distrib nat_add_distrib)
    have r: "initCTR_fill_ctr (Suc i) bN c = initCTR_fill_ctr i bN2 c1"
      using False by (simp add: Let_def m_def c1_def bN2_def)
    have t1: "take i c1 = take i c" by (simp add: c1_def)
    have n: "initCTR_fill_ctr i bN2 c1 ! i = c ! i + m" by (simp add: initCTR_fill_ctr_nth c1i)
    have A: "take (Suc i) (initCTR_fill_ctr i bN2 c1) = take i (initCTR_fill_ctr i bN2 c1) @ [c ! i + m]"
      using il n by (simp add: take_Suc_conv_app_nth c1_def)
    have B: "be_val (take i (initCTR_fill_ctr i bN2 c1)) = (be_val (take i c) + nat bN2) mod 256 ^ i"
      using Suc.IH[of c1 bN2] il t1 b2 by (simp add: c1_def)
    have C: "unat (c ! i + m) = (unat (c ! i) + nat bN mod 256) mod 256"
      by (simp add: unat_byte_add um)
    have "be_val (take (Suc i) (initCTR_fill_ctr (Suc i) bN c))
        = be_val (take (Suc i) (initCTR_fill_ctr i bN2 c1))" by (simp only: r)
    also have "\<dots> = ((be_val (take i c) + nat bN2) mod 256 ^ i) * 256 + unat (c ! i + m)"
      by (simp only: A be_val_snoc B)
    also have "\<dots> = (be_val (take i c) * 256 + unat (c ! i) + nat bN) mod 256 ^ Suc i"
      by (simp only: split_arith nb2 carry_def C)
    also have "\<dots> = (be_val (take (Suc i) c) + nat bN) mod 256 ^ Suc i"
      by (simp only: tk be_val_snoc)
    finally show ?thesis .
  qed
qed

lemma byte_256: "(256::byte) = 0"
  by (simp add: word_unat_eq_iff)

lemma increment_loop_append:
  "i \<le> length pre \<Longrightarrow> increment_loop i (pre @ suf) = increment_loop i pre @ suf"
proof (induction i arbitrary: pre)
  case 0 show ?case by simp
next
  case (Suc i)
  then have il: "i < length pre" by simp
  then show ?case
    by (simp add: Let_def nth_append list_update_append1 Suc.IH)
qed

lemma increment_loop_ff:
  "increment_loop (length pre + k) (pre @ replicate k 255)
     = increment_loop (length pre) pre @ replicate k 0"
proof (induction k)
  case 0 show ?case by simp
next
  case (Suc k)
  let ?c = "pre @ replicate k 255"
  have e: "pre @ replicate (Suc k) 255 = ?c @ [255]"
    by (simp add: replicate_append_same)
  have l: "length pre + Suc k = Suc (length ?c)" by simp
  have "increment_loop (Suc (length ?c)) (?c @ [255]) = increment_loop (length ?c) (?c @ [0])"
    by (simp only: increment_loop.simps Let_def nth_append_length list_update_length)
       (simp add: byte_256)
  also have "\<dots> = increment_loop (length ?c) ?c @ [0]"
    by (rule increment_loop_append) simp
  also have "\<dots> = (increment_loop (length pre) pre @ replicate k 0) @ [0]"
    using Suc.IH by simp
  also have "\<dots> = increment_loop (length pre) pre @ replicate (Suc k) 0"
    by (simp add: replicate_append_same)
  finally show ?case by (simp only: e l)
qed

lemma increment_all_ff: "increment (replicate n 255) = replicate n 0"
  using increment_loop_ff[of "[]" n] by (simp add: increment_def)

lemma increment_carry:
  assumes "b \<noteq> 255"
  shows "increment (pre @ b # replicate k 255) = pre @ (b + 1) # replicate k 0"
proof -
  have nz: "b + 1 \<noteq> 0"
  proof
    assume "b + 1 = 0"
    then have "unat b = 255" by (rule byte_succ_zero)
    then have "b = 255" by (simp add: word_unat_eq_iff)
    with assms show False by simp
  qed
  have "increment (pre @ b # replicate k 255)
      = increment_loop (length (pre @ [b]) + k) ((pre @ [b]) @ replicate k 255)"
    by (simp add: increment_def)
  also have "\<dots> = increment_loop (length (pre @ [b])) (pre @ [b]) @ replicate k 0"
    by (rule increment_loop_ff)
  also have "increment_loop (length (pre @ [b])) (pre @ [b]) = pre @ [b + 1]"
    using nz by (simp add: Let_def)
  finally show ?thesis by simp
qed

lemma increment_funpow_length [simp]: "length ((increment ^^ k) c) = length c"
  by (induction k) simp_all

lemma increment_funpow_val:
  "be_val ((increment ^^ k) c) = (be_val c + k) mod 256 ^ length c"
proof (induction k)
  case 0
  show ?case using be_val_lt[of c] by simp
next
  case (Suc k)
  have "be_val ((increment ^^ Suc k) c) = (be_val ((increment ^^ k) c) + 1) mod 256 ^ length c"
    by (simp add: increment_val)
  also have "\<dots> = ((be_val c + k) mod 256 ^ length c + 1) mod 256 ^ length c"
    by (simp only: Suc.IH)
  also have "\<dots> = (be_val c + Suc k) mod 256 ^ length c"
    by (simp add: mod_Suc_eq)
  finally show ?case .
qed

lemma be_val_inj: "length a = length b \<Longrightarrow> be_val a = be_val b \<Longrightarrow> a = b"
proof (induction a arbitrary: b rule: rev_induct)
  case Nil then show ?case by simp
next
  case (snoc x xs)
  then obtain y ys where b: "b = ys @ [y]" by (cases b rule: rev_cases) auto
  have l: "length xs = length ys" using snoc.prems(1) b by simp
  have e: "be_val xs * 256 + unat x = be_val ys * 256 + unat y" using snoc.prems(2) b by simp
  have x: "unat x < 256" and y: "unat y < 256" by (rule unat_byte_lt)+
  have "(be_val xs * 256 + unat x) div 256 = (be_val ys * 256 + unat y) div 256"
    and "(be_val xs * 256 + unat x) mod 256 = (be_val ys * 256 + unat y) mod 256"
    using e by simp_all
  then have "be_val xs = be_val ys" and "unat x = unat y" using x y by simp_all
  then show ?case using snoc.IH[OF l] b by (simp add: word_unat_eq_iff)
qed

lemma initCTR_fill_ctr_eq_funpow:
  "0 \<le> bN \<Longrightarrow> initCTR_fill_ctr (length c) bN c = (increment ^^ nat bN) c"
  using initCTR_fill_ctr_val[of "length c" c bN]
  by (intro be_val_inj) (simp_all add: increment_funpow_val)

section \<open>Keystream buffer: refill and consumption\<close>

lemma copy_bytes_length [simp]: "length (copy_bytes dst src) = length dst"
  by (simp add: copy_bytes_def)

lemma copy_bytes_fit: "length src \<le> length dst \<Longrightarrow> copy_bytes dst src = src @ drop (length src) dst"
  by (simp add: copy_bytes_def)

lemma dup_eq [simp]: "dup p = p"
  by (simp add: dup_def copy_bytes_def)

lemma copy_bytes_same_length: "length src = length dst \<Longrightarrow> copy_bytes dst src = src"
  by (simp add: copy_bytes_def)

lemma copy_bytes_Nil [simp]: "copy_bytes [] src = []"
  by (simp add: copy_bytes_def)

lemma fill_out_eq:
  assumes "1 \<le> BlockSize blk"
  shows "fill_out blk remain out c
       = Some (fill_steps blk ((length out - remain) div BlockSize blk) remain out c)"
proof (induction "length out - remain" arbitrary: remain out c rule: less_induct)
  case less
  let ?bs = "BlockSize blk"
  show ?case
  proof (cases "int remain \<le> int (length out) - int ?bs")
    case False
    then have "\<not> remain + ?bs \<le> length out" by linarith
    then have "length out - remain < ?bs" using assms by arith
    then have "(length out - remain) div ?bs = 0" by simp
    then show ?thesis using False by (subst fill_out.simps) simp
  next
    case True
    let ?out = "take remain out @ copy_bytes (drop remain out) (Encrypt blk c)"
    have le: "remain + ?bs \<le> length out" using True by linarith
    have len: "length ?out = length out" using le by simp
    have dec: "length ?out - (remain + ?bs) < length out - remain"
      using le assms len by linarith
    have k: "(length out - remain) div ?bs = Suc ((length ?out - (remain + ?bs)) div ?bs)"
    proof -
      have "length out - remain = (length out - (remain + ?bs)) + ?bs" using le by simp
      then have "(length out - remain) div ?bs = (length out - (remain + ?bs)) div ?bs + 1"
        using assms by (metis div_add_self2 not_one_le_zero)
      then show ?thesis by (simp add: len)
    qed
    have "fill_out blk remain out c = fill_out blk (remain + ?bs) ?out (increment c)"
      using True by (subst fill_out.simps) simp
    also have "\<dots> = Some (fill_steps blk ((length ?out - (remain + ?bs)) div ?bs)
                          (remain + ?bs) ?out (increment c))"
      using less[OF dec] .
    finally show ?thesis by (simp add: k)
  qed
qed

lemma fill_steps_fst [simp]: "fst (fill_steps blk k remain out c) = remain + k * BlockSize blk"
  by (induction k arbitrary: remain out c) simp_all

lemma fill_steps_ctr [simp]: "snd (snd (fill_steps blk k remain out c)) = (increment ^^ k) c"
  by (induction k arbitrary: remain out c) (simp_all add: funpow_swap1)

lemma fill_steps_length [simp]: "length (fst (snd (fill_steps blk k remain out c))) = length out"
  by (induction k arbitrary: remain out c) simp_all

lemma fill_steps_take:
  "take remain (fst (snd (fill_steps blk k remain out c))) = take remain out"
proof (induction k arbitrary: remain out c)
  case 0 show ?case by simp
next
  case (Suc k)
  let ?out = "take remain out @ copy_bytes (drop remain out) (Encrypt blk c)"
  have "take remain (fst (snd (fill_steps blk k (remain + BlockSize blk) ?out (increment c))))
      = take remain (take (remain + BlockSize blk)
          (fst (snd (fill_steps blk k (remain + BlockSize blk) ?out (increment c)))))"
    by (simp add: min_def)
  also have "\<dots> = take remain (take (remain + BlockSize blk) ?out)"
    by (simp only: Suc.IH)
  also have "\<dots> = take remain out"
    by (simp add: min_def)
  finally show ?case by simp
qed

lemma ks_blocks_length:
  "wf_Block blk \<Longrightarrow> length c = BlockSize blk \<Longrightarrow> length (ks_blocks blk c k) = k * BlockSize blk"
  by (induction k arbitrary: c) (simp_all add: wf_Block_def)

lemma fill_steps_wf:
  assumes "wf_Block blk"
  shows "length c = BlockSize blk \<Longrightarrow> remain + k * BlockSize blk \<le> length out \<Longrightarrow>
         fill_steps blk k remain out c
           = (remain + k * BlockSize blk,
              take remain out @ ks_blocks blk c k @ drop (remain + k * BlockSize blk) out,
              (increment ^^ k) c)"
proof (induction k arbitrary: remain out c)
  case 0 show ?case by simp
next
  case (Suc k)
  let ?bs = "BlockSize blk"
  let ?E = "Encrypt blk c"
  let ?out = "take remain out @ copy_bytes (drop remain out) ?E"
  have E: "length ?E = ?bs" using assms Suc.prems(1) by (simp add: wf_Block_def)
  have le: "remain + ?bs \<le> length out" using Suc.prems(2) by simp
  have cb: "copy_bytes (drop remain out) ?E = ?E @ drop (remain + ?bs) out"
    using le E by (simp add: copy_bytes_fit add.commute)
  have o: "?out = (take remain out @ ?E) @ drop (remain + ?bs) out" by (simp add: cb)
  have l1: "length (take remain out @ ?E) = remain + ?bs" using le E by simp
  have t: "take (remain + ?bs) ?out = take remain out @ ?E"
    unfolding o using l1 by simp
  have d: "drop (remain + ?bs + k * ?bs) ?out = drop (remain + ?bs + k * ?bs) out"
    unfolding o using l1 by (simp add: add.commute)
  have "fill_steps blk (Suc k) remain out c
      = fill_steps blk k (remain + ?bs) ?out (increment c)" by simp
  also have "\<dots> = (remain + ?bs + k * ?bs,
       take (remain + ?bs) ?out @ ks_blocks blk (increment c) k @ drop (remain + ?bs + k * ?bs) ?out,
       (increment ^^ k) (increment c))"
    using Suc.prems by (intro Suc.IH) simp_all
  also have "\<dots> = (remain + Suc k * ?bs,
       take remain out @ ks_blocks blk c (Suc k) @ drop (remain + Suc k * ?bs) out,
       (increment ^^ Suc k) c)"
    by (simp only: t d) (simp add: funpow_swap1 add.assoc)
  finally show ?case .
qed

lemma ks_blocks_nth:
  assumes "wf_Block blk" and "1 \<le> BlockSize blk"
  shows "length c = BlockSize blk \<Longrightarrow> j < k * BlockSize blk \<Longrightarrow>
         ks_blocks blk c k ! j = ks_at blk c j"
proof (induction k arbitrary: c j)
  case 0 then show ?case by simp
next
  case (Suc k)
  let ?bs = "BlockSize blk"
  have E: "length (Encrypt blk c) = ?bs" using assms Suc.prems(1) by (simp add: wf_Block_def)
  show ?case
  proof (cases "j < ?bs")
    case True
    then show ?thesis using E by (simp add: nth_append ks_at_def)
  next
    case False
    then have j: "j = (j - ?bs) + ?bs" by simp
    have "ks_blocks blk (increment c) k ! (j - ?bs) = ks_at blk (increment c) (j - ?bs)"
      using Suc.prems False by (intro Suc.IH) simp_all
    moreover have "ks_at blk (increment c) (j - ?bs) = ks_at blk c j"
    proof -
      have "j div ?bs = Suc ((j - ?bs) div ?bs)" and "j mod ?bs = (j - ?bs) mod ?bs"
        using False assms(2) by (simp_all add: le_div_geq le_mod_geq)
      then show ?thesis by (simp add: ks_at_def funpow_swap1)
    qed
    ultimately show ?thesis using False E by (simp add: nth_append)
  qed
qed

lemma pending_length: "0 \<le> x_outUsed x \<Longrightarrow> x_outUsed x \<le> int (length (x_out x)) \<Longrightarrow>
   length (pending x) = length (x_out x) - nat (x_outUsed x)"
  by (simp add: pending_def)

lemma refill_general:
  assumes bs: "1 \<le> BlockSize blk"
    and u: "0 \<le> x_outUsed x" "x_outUsed x \<le> int (length (x_out x))"
  shows "\<exists>x'. refill blk x = Some (Inr x')
           \<and> x_ctr x' = (increment ^^ refill_blocks blk x) (x_ctr x)
           \<and> x_outUsed x' = 0
           \<and> cap x' = cap x
           \<and> length (x_out x') = length (pending x) + refill_blocks blk x * BlockSize blk
           \<and> take (length (pending x)) (x_out x') = pending x"
proof -
  let ?bs = "BlockSize blk"
  let ?P = "pending x"
  let ?remain = "length (x_out x) - nat (x_outUsed x)"
  let ?out2 = "copy_bytes (x_out x) (drop (nat (x_outUsed x)) (x_out x)) @ x_spare x"
  let ?k = "refill_blocks blk x"
  let ?r = "fill_steps blk ?k ?remain ?out2 (x_ctr x)"
  let ?x' = "\<lparr>x_ctr = snd (snd ?r), x_out = take (fst ?r) (fst (snd ?r)),
              x_spare = drop (fst ?r) (fst (snd ?r)), x_outUsed = 0\<rparr>"
  have rl: "length ?P = ?remain" using u by (simp add: pending_length)
  have l2: "length ?out2 = cap x" by (simp add: cap_def)
  have k: "(length ?out2 - ?remain) div ?bs = ?k" by (simp add: refill_blocks_def rl cap_def)
  have fo: "fill_out blk ?remain ?out2 (x_ctr x) = Some ?r"
    using fill_out_eq[OF bs, of ?remain ?out2 "x_ctr x"] by (simp only: k)
  have R: "refill blk x = Some (Inr ?x')"
    using u by (simp add: refill_def Let_def fo case_prod_beta)
  have le: "?remain + ?k * ?bs \<le> cap x"
  proof -
    have "?k * ?bs \<le> cap x - ?remain" by (simp add: refill_blocks_def rl)
    moreover have "?remain \<le> cap x" by (simp add: cap_def)
    ultimately show ?thesis by linarith
  qed
  have cb: "copy_bytes (x_out x) ?P = ?P @ drop (length ?P) (x_out x)"
    by (rule copy_bytes_fit) (simp add: pending_def)
  have tk: "take ?remain ?out2 = ?P"
    using cb rl by (simp add: pending_def)
  have "take ?remain (take (fst ?r) (fst (snd ?r))) = take ?remain (fst (snd ?r))"
    by (simp add: min_def)
  also have "\<dots> = ?P" by (simp only: fill_steps_take tk)
  finally have T: "take (length ?P) (x_out ?x') = ?P" by (simp add: rl)
  have L: "length (x_out ?x') = length ?P + ?k * ?bs"
    using le by (simp add: cap_def rl)
  have C: "cap ?x' = cap x" using le by (simp add: cap_def)
  show ?thesis
    apply (rule exI[of _ ?x'])
    using R T L C by simp
qed

lemma refill_wf:
  assumes wf: "wf_Block blk" and bs: "1 \<le> BlockSize blk" and ok: "state_ok blk x"
  shows "\<exists>x'. refill blk x = Some (Inr x')
           \<and> x_ctr x' = (increment ^^ refill_blocks blk x) (x_ctr x)
           \<and> x_out x' = pending x @ ks_blocks blk (x_ctr x) (refill_blocks blk x)
           \<and> x_outUsed x' = 0
           \<and> cap x' = cap x"
proof -
  let ?bs = "BlockSize blk"
  let ?P = "pending x"
  let ?remain = "length (x_out x) - nat (x_outUsed x)"
  let ?out2 = "copy_bytes (x_out x) (drop (nat (x_outUsed x)) (x_out x)) @ x_spare x"
  let ?k = "refill_blocks blk x"
  let ?r = "fill_steps blk ?k ?remain ?out2 (x_ctr x)"
  have u: "0 \<le> x_outUsed x" "x_outUsed x \<le> int (length (x_out x))"
    and lc: "length (x_ctr x) = ?bs" using ok by (simp_all add: state_ok_def)
  have rl: "length ?P = ?remain" using u by (simp add: pending_length)
  have l2: "length ?out2 = cap x" by (simp add: cap_def)
  have k: "(length ?out2 - ?remain) div ?bs = ?k" by (simp add: refill_blocks_def rl cap_def)
  have fo: "fill_out blk ?remain ?out2 (x_ctr x) = Some ?r"
    using fill_out_eq[OF bs, of ?remain ?out2 "x_ctr x"] by (simp only: k)
  have le: "?remain + ?k * ?bs \<le> length ?out2"
  proof -
    have "?k * ?bs \<le> cap x - ?remain" by (simp add: refill_blocks_def rl)
    moreover have "?remain \<le> cap x" by (simp add: cap_def)
    ultimately show ?thesis unfolding l2 by linarith
  qed
  have cb: "copy_bytes (x_out x) ?P = ?P @ drop (length ?P) (x_out x)"
    by (rule copy_bytes_fit) (simp add: pending_def)
  have tk: "take ?remain ?out2 = ?P"
    using cb rl by (simp add: pending_def)
  have r: "?r = (?remain + ?k * ?bs,
                 ?P @ ks_blocks blk (x_ctr x) ?k @ drop (?remain + ?k * ?bs) ?out2,
                 (increment ^^ ?k) (x_ctr x))"
    using fill_steps_wf[OF wf lc le] by (simp only: tk)
  have lpk: "length (?P @ ks_blocks blk (x_ctr x) ?k) = ?remain + ?k * ?bs"
    using rl by (simp add: ks_blocks_length[OF wf lc])
  let ?x' = "\<lparr>x_ctr = (increment ^^ ?k) (x_ctr x), x_out = ?P @ ks_blocks blk (x_ctr x) ?k,
              x_spare = drop (?remain + ?k * ?bs) ?out2, x_outUsed = 0\<rparr>"
  have tt: "take (?remain + ?k * ?bs)
              (?P @ ks_blocks blk (x_ctr x) ?k @ drop (?remain + ?k * ?bs) ?out2)
            = ?P @ ks_blocks blk (x_ctr x) ?k"
    using lpk by (metis append.assoc append_eq_conv_conj)
  have dd: "drop (?remain + ?k * ?bs)
              (?P @ ks_blocks blk (x_ctr x) ?k @ drop (?remain + ?k * ?bs) ?out2)
            = drop (?remain + ?k * ?bs) ?out2"
    using lpk by (metis append.assoc append_eq_conv_conj)
  have nc: "\<not> (x_outUsed x < 0 \<or> int (length (x_out x)) < x_outUsed x)" using u by simp
  have fo': "fill_out blk ?remain ?out2 (x_ctr x)
      = Some (?remain + ?k * ?bs,
              ?P @ ks_blocks blk (x_ctr x) ?k @ drop (?remain + ?k * ?bs) ?out2,
              (increment ^^ ?k) (x_ctr x))"
    using fo r by (simp only:)
  have R: "refill blk x = Some (Inr ?x')"
    by (simp only: refill_def Let_def nc if_False fo' option.case prod.case tt dd)
  have C: "cap ?x' = cap x"
  proof -
    have "cap ?x' = length (?P @ ks_blocks blk (x_ctr x) ?k)
                     + length (drop (?remain + ?k * ?bs) ?out2)"
      by (simp only: cap_def ctrState.simps)
    also have "\<dots> = (?remain + ?k * ?bs) + (cap x - (?remain + ?k * ?bs))"
      by (simp only: lpk length_drop l2)
    also have "\<dots> = cap x" using le[unfolded l2] by simp
    finally show ?thesis .
  qed
  show ?thesis
    apply (rule exI[of _ ?x'])
    using R C by simp
qed

lemma ks_at_shift:
  assumes "1 \<le> BlockSize blk"
  shows "ks_at blk ((increment ^^ k) c) j = ks_at blk c (k * BlockSize blk + j)"
proof -
  have "(k * BlockSize blk + j) div BlockSize blk = k + j div BlockSize blk"
    using assms by simp
  moreover have "(k * BlockSize blk + j) mod BlockSize blk = j mod BlockSize blk"
    by simp
  moreover have "(increment ^^ (k + j div BlockSize blk)) c
      = (increment ^^ (j div BlockSize blk)) ((increment ^^ k) c)"
    by (simp add: add.commute[of k] funpow_add)
  ultimately show ?thesis by (simp only: ks_at_def)
qed

lemma stream_at_refill:
  assumes wf: "wf_Block blk" and bs: "1 \<le> BlockSize blk" and ok: "state_ok blk x"
    and r: "refill blk x = Some (Inr x')"
  shows "stream_at blk x' i = stream_at blk x i"
proof -
  let ?P = "pending x" and ?k = "refill_blocks blk x" and ?bs = "BlockSize blk"
  have lc: "length (x_ctr x) = ?bs" using ok by (simp add: state_ok_def)
  from refill_wf[OF wf bs ok] r
  have c: "x_ctr x' = (increment ^^ ?k) (x_ctr x)"
    and o: "x_out x' = ?P @ ks_blocks blk (x_ctr x) ?k"
    and u: "x_outUsed x' = 0" by auto
  have p: "pending x' = ?P @ ks_blocks blk (x_ctr x) ?k" by (simp add: pending_def u o)
  have lk: "length (ks_blocks blk (x_ctr x) ?k) = ?k * ?bs" by (rule ks_blocks_length[OF wf lc])
  consider "i < length ?P" | "length ?P \<le> i" "i - length ?P < ?k * ?bs"
    | "length ?P \<le> i" "?k * ?bs \<le> i - length ?P" by linarith
  then show ?thesis
  proof cases
    case 1
    then show ?thesis by (simp add: stream_at_def p nth_append)
  next
    case 2
    then have "i < length ?P + ?k * ?bs" and "\<not> i < length ?P" by linarith+
    then have "stream_at blk x' i = ks_blocks blk (x_ctr x) ?k ! (i - length ?P)"
      by (simp add: stream_at_def p nth_append lk)
    also have "\<dots> = ks_at blk (x_ctr x) (i - length ?P)"
      using 2 by (intro ks_blocks_nth[OF wf bs lc])
    finally show ?thesis using 2 by (simp add: stream_at_def)
  next
    case 3
    then have "\<not> i < length ?P + ?k * ?bs" by linarith
    then have "stream_at blk x' i = ks_at blk ((increment ^^ ?k) (x_ctr x)) (i - length ?P - ?k * ?bs)"
      by (simp add: stream_at_def p lk c)
    also have "\<dots> = ks_at blk (x_ctr x) (?k * ?bs + (i - length ?P - ?k * ?bs))"
      by (rule ks_at_shift[OF bs])
    also have "\<dots> = ks_at blk (x_ctr x) (i - length ?P)" using 3 by simp
    finally show ?thesis using 3 by (simp add: stream_at_def)
  qed
qed

lemma pending_advance:
  assumes "0 \<le> x_outUsed x"
  shows "pending (x\<lparr>x_outUsed := x_outUsed x + int n\<rparr>) = drop n (pending x)"
  using assms by (simp add: pending_def nat_add_distrib add.commute)

lemma stream_at_advance:
  assumes "0 \<le> x_outUsed x" and "n \<le> length (pending x)"
  shows "stream_at blk (x\<lparr>x_outUsed := x_outUsed x + int n\<rparr>) i = stream_at blk x (n + i)"
proof -
  have p: "pending (x\<lparr>x_outUsed := x_outUsed x + int n\<rparr>) = drop n (pending x)"
    using assms(1) by (rule pending_advance)
  show ?thesis
  proof (cases "n + i < length (pending x)")
    case True
    then have "i < length (pending x) - n" by linarith
    then show ?thesis using True by (simp add: stream_at_def p)
  next
    case False
    then have "i - (length (pending x) - n) = n + i - length (pending x)"
      and "\<not> i < length (pending x) - n"
      using assms(2) by linarith+
    then show ?thesis using False by (simp add: stream_at_def p)
  qed
qed

lemma xorBytes_ok:
  assumes "min (length a) (length bb) \<le> length dst"
  shows "xorBytes dst a bb
       = Inr (map2 (XOR) (take (min (length a) (length bb)) a)
                         (take (min (length a) (length bb)) bb)
              @ drop (min (length a) (length bb)) dst,
              min (length a) (length bb))"
  using assms by (auto simp: xorBytes_def Let_def min_def)

lemma top_up:
  assumes wf: "wf_Block blk" and bs: "1 \<le> BlockSize blk" and ok: "state_ok blk x"
    and cp: "BlockSize blk \<le> cap x"
  shows "\<exists>x1. (if x_outUsed x \<ge> int (length (x_out x)) - int (BlockSize blk)
               then refill blk x else Some (Inr x)) = Some (Inr x1)
            \<and> state_ok blk x1 \<and> cap x1 = cap x
            \<and> (\<forall>i. stream_at blk x1 i = stream_at blk x i)
            \<and> pending x1 \<noteq> []"
proof (cases "x_outUsed x \<ge> int (length (x_out x)) - int (BlockSize blk)")
  case True
  let ?P = "pending x" and ?k = "refill_blocks blk x" and ?bs = "BlockSize blk"
  have lc: "length (x_ctr x) = ?bs" using ok by (simp add: state_ok_def)
  from refill_wf[OF wf bs ok] obtain x1 where
    r: "refill blk x = Some (Inr x1)"
    and c: "x_ctr x1 = (increment ^^ ?k) (x_ctr x)"
    and o: "x_out x1 = ?P @ ks_blocks blk (x_ctr x) ?k"
    and u: "x_outUsed x1 = 0"
    and cc: "cap x1 = cap x" by blast
  have lk: "length (ks_blocks blk (x_ctr x) ?k) = ?k * ?bs" by (rule ks_blocks_length[OF wf lc])
  have ok1: "state_ok blk x1" by (simp add: state_ok_def u c lc)
  have st: "\<forall>i. stream_at blk x1 i = stream_at blk x i"
    using stream_at_refill[OF wf bs ok r] by simp
  have p1: "pending x1 = ?P @ ks_blocks blk (x_ctr x) ?k" by (simp add: pending_def u o)
  have ne: "pending x1 \<noteq> []"
  proof (cases "?P = []")
    case False then show ?thesis by (simp add: p1)
  next
    case True
    then have "?k = cap x div ?bs" by (simp add: refill_blocks_def)
    moreover have "1 \<le> cap x div ?bs" using cp bs
      by (metis div_greater_zero_iff less_eq_Suc_le One_nat_def)
    ultimately have "1 \<le> ?k * ?bs" using bs by (metis mult_le_mono nat_mult_1)
    then have "ks_blocks blk (x_ctr x) ?k \<noteq> []" using lk by auto
    then show ?thesis by (simp add: p1)
  qed
  show ?thesis using True r ok1 cc st ne by auto
next
  case False
  have u: "0 \<le> x_outUsed x" "x_outUsed x \<le> int (length (x_out x))"
    using ok by (simp_all add: state_ok_def)
  have "length (pending x) = length (x_out x) - nat (x_outUsed x)"
    using u by (rule pending_length)
  moreover have "nat (x_outUsed x) < length (x_out x)" using False u by linarith
  ultimately have "pending x \<noteq> []" by auto
  then show ?thesis using False ok by auto
qed

lemma XORKeyStream_correct:
  assumes wf: "wf_Block blk" and bs: "1 \<le> BlockSize blk"
  shows "state_ok blk x \<Longrightarrow> BlockSize blk \<le> cap x \<Longrightarrow> length src \<le> length dst \<Longrightarrow>
    \<exists>x'. XORKeyStream blk x dst src
            = Some (Inr (x', map (\<lambda>i. src ! i XOR stream_at blk x i) [0..<length src]
                             @ drop (length src) dst))
        \<and> state_ok blk x' \<and> cap x' = cap x
        \<and> (\<forall>i. stream_at blk x' i = stream_at blk x (length src + i))"
proof (induction "length src" arbitrary: x dst src rule: less_induct)
  case less
  show ?case
  proof (cases "src = []")
    case True
    then show ?thesis using less.prems by (subst XORKeyStream.simps) simp
  next
    case False
    let ?L = "length src"
    from top_up[OF wf bs less.prems(1,2)] obtain x1 where
      t: "(if x_outUsed x \<ge> int (length (x_out x)) - int (BlockSize blk)
           then refill blk x else Some (Inr x)) = Some (Inr x1)"
      and ok1: "state_ok blk x1" and c1: "cap x1 = cap x"
      and s1: "\<And>i. stream_at blk x1 i = stream_at blk x i"
      and ne: "pending x1 \<noteq> []" by blast
    let ?P = "pending x1"
    define n where "n = min ?L (length ?P)"
    have n1: "1 \<le> n" using False ne by (simp add: n_def Suc_le_eq)
    have nL: "n \<le> ?L" and nP: "n \<le> length ?P" by (simp_all add: n_def)
    have u1: "0 \<le> x_outUsed x1" "x_outUsed x1 \<le> int (length (x_out x1))"
      using ok1 by (simp_all add: state_ok_def)
    have nd: "n \<le> length dst" using nL less.prems(3) by simp
    define dst1 where "dst1 = map2 (XOR) (take n src) (take n ?P) @ drop n dst"
    have xb: "xorBytes dst src (drop (nat (x_outUsed x1)) (x_out x1)) = Inr (dst1, n)"
      using xorBytes_ok[of src ?P dst] nd by (simp add: n_def dst1_def pending_def)
    let ?x2 = "x1\<lparr>x_outUsed := x_outUsed x1 + int n\<rparr>"
    have pl: "length ?P = length (x_out x1) - nat (x_outUsed x1)"
      using u1 by (rule pending_length)
    have ok2: "state_ok blk ?x2" using ok1 nP pl u1 by (simp add: state_ok_def)
    have c2: "cap ?x2 = cap x" using c1 by (simp add: cap_def)
    have s2: "\<And>i. stream_at blk ?x2 i = stream_at blk x (n + i)"
      using stream_at_advance[OF u1(1) nP] s1 by simp
    have lz: "length (map2 (XOR) (take n src) (take n ?P)) = n" using nL nP by simp
    have d1: "drop n dst1 = drop n dst" unfolding dst1_def using lz by simp
    have t1: "take n dst1 = map (\<lambda>i. src ! i XOR stream_at blk x i) [0..<n]"
    proof (rule nth_equalityI)
      show "length (take n dst1) = length (map (\<lambda>i. src ! i XOR stream_at blk x i) [0..<n])"
        unfolding dst1_def using lz by simp
    next
      fix i assume "i < length (take n dst1)"
      then have i: "i < n" by simp
      have "stream_at blk x i = ?P ! i" using i nP s1[of i] by (simp add: stream_at_def)
      then show "take n dst1 ! i = map (\<lambda>i. src ! i XOR stream_at blk x i) [0..<n] ! i"
        using i nL nP lz by (simp add: dst1_def nth_append)
    qed
    have lt: "length (drop n src) < ?L" using n1 False by simp
    have ld: "length (drop n src) \<le> length (drop n dst1)"
      using less.prems(3) by (simp add: d1)
    from less.hyps[OF lt ok2 _ ld] less.prems(2) c2 obtain x' where
      r: "XORKeyStream blk ?x2 (drop n dst1) (drop n src)
            = Some (Inr (x', map (\<lambda>i. drop n src ! i XOR stream_at blk ?x2 i)
                               [0..<length (drop n src)]
                             @ drop (length (drop n src)) (drop n dst1)))"
      and ok': "state_ok blk x'" and c': "cap x' = cap ?x2"
      and s': "\<And>i. stream_at blk x' i = stream_at blk ?x2 (length (drop n src) + i)"
      by auto
    have m2: "map (\<lambda>i. drop n src ! i XOR stream_at blk ?x2 i) [0..<length (drop n src)]
            = map (\<lambda>i. src ! i XOR stream_at blk x i) [n..<?L]"
      using nL by (intro nth_equalityI) (simp_all add: s2)
    have dd: "drop (length (drop n src)) (drop n dst1) = drop ?L dst"
      using nL by (simp add: d1 add.commute)
    have split: "[0..<?L] = [0..<n] @ [n..<?L]"
      using nL by (metis le_add_diff_inverse upt_add_eq_append zero_le)
    have res: "take n dst1 @ (map (\<lambda>i. drop n src ! i XOR stream_at blk ?x2 i)
                               [0..<length (drop n src)]
                             @ drop (length (drop n src)) (drop n dst1))
             = map (\<lambda>i. src ! i XOR stream_at blk x i) [0..<?L] @ drop ?L dst"
      by (simp only: t1 m2 dd split map_append append_assoc)
    have nc: "\<not> (x_outUsed x1 < 0 \<or> int (length (x_out x1)) < x_outUsed x1)"
      using u1 by simp
    have E: "XORKeyStream blk x dst src
        = Some (Inr (x', take n dst1 @ (map (\<lambda>i. drop n src ! i XOR stream_at blk ?x2 i)
                               [0..<length (drop n src)]
                             @ drop (length (drop n src)) (drop n dst1))))"
      using False
      by (subst XORKeyStream.simps) (simp add: t nc xb r del: upt_Suc)
    have "XORKeyStream blk x dst src
        = Some (Inr (x', map (\<lambda>i. src ! i XOR stream_at blk x i) [0..<?L] @ drop ?L dst))"
      using E res by (simp only:)
    moreover have "\<forall>i. stream_at blk x' i = stream_at blk x (?L + i)"
    proof
      fix i
      have "stream_at blk x' i = stream_at blk x (n + ((?L - n) + i))"
        using s'[of i] s2[of "(?L - n) + i"] by simp
      then show "stream_at blk x' i = stream_at blk x (?L + i)" using nL by simp
    qed
    ultimately show ?thesis using ok' c' c2 by auto
  qed
qed

section \<open>The readers\<close>

lemma stream_at_fresh:
  assumes wf: "wf_Block blk" and bs: "1 \<le> BlockSize blk" and lc: "length c = BlockSize blk"
    and u: "x_outUsed x = 0" and o: "x_out x = drop d (ks_blocks blk c k)"
    and ct: "x_ctr x = (increment ^^ k) c" and d: "d \<le> k * BlockSize blk"
  shows "stream_at blk x i = ks_at blk c (d + i)"
proof -
  let ?bs = "BlockSize blk"
  have lk: "length (ks_blocks blk c k) = k * ?bs" by (rule ks_blocks_length[OF wf lc])
  have p: "pending x = drop d (ks_blocks blk c k)" by (simp add: pending_def u o)
  show ?thesis
  proof (cases "d + i < k * ?bs")
    case True
    then have "i < k * ?bs - d" by linarith
    then have "stream_at blk x i = ks_blocks blk c k ! (d + i)"
      using True d by (simp add: stream_at_def p lk)
    also have "\<dots> = ks_at blk c (d + i)" using True by (intro ks_blocks_nth[OF wf bs lc])
    finally show ?thesis .
  next
    case False
    then have n: "\<not> i < k * ?bs - d" by linarith
    have e: "k * ?bs + (i - (k * ?bs - d)) = d + i" using False d by linarith
    have "stream_at blk x i = ks_at blk ((increment ^^ k) c) (i - (k * ?bs - d))"
      using n by (simp add: stream_at_def p lk ct)
    also have "\<dots> = ks_at blk c (k * ?bs + (i - (k * ?bs - d)))" by (rule ks_at_shift[OF bs])
    finally show ?thesis by (simp only: e)
  qed
qed

lemma initCTR_refill_state:
  "initCTR c bN bOff =
     (case refill (c_b c) \<lparr>x_ctr = initCTR_fill_ctr (length (c_iv c)) bN (c_iv c), x_out = [],
                             x_spare = replicate (c_bs c) 0, x_outUsed = 0\<rparr> of
        None \<Rightarrow> None
      | Some (Inl e) \<Rightarrow> Some (Inl e)
      | Some (Inr x2) \<Rightarrow>
          if bOff < 0 \<or> int (length (x_out x2)) < bOff then Some (Inl SliceBounds)
          else Some (Inr (x2\<lparr>x_out := drop (nat bOff) (x_out x2)\<rparr>)))"
  by (simp add: initCTR_def Let_def copy_bytes_same_length)

lemma blocks_fit:
  assumes "1 \<le> (bs::nat)" and "bs \<le> n"
  shows "bs \<le> n div bs * bs"
proof -
  have "1 \<le> n div bs" using assms by (metis div_greater_zero_iff less_eq_Suc_le One_nat_def)
  then show ?thesis by (metis mult_le_mono1 nat_mult_1)
qed

lemma initCTR_general:
  assumes bs: "1 \<le> BlockSize (c_b c)" and cb: "BlockSize (c_b c) \<le> c_bs c"
    and o: "0 \<le> bOff" "bOff < int (BlockSize (c_b c))"
  shows "\<exists>x. initCTR c bN bOff = Some (Inr x) \<and> x_outUsed x = 0
             \<and> cap x = c_bs c - nat bOff
             \<and> length (x_out x) = c_bs c div BlockSize (c_b c) * BlockSize (c_b c) - nat bOff"
proof -
  let ?blk = "c_b c" and ?bs = "BlockSize (c_b c)"
  let ?x1 = "\<lparr>x_ctr = initCTR_fill_ctr (length (c_iv c)) bN (c_iv c), x_out = [],
              x_spare = replicate (c_bs c) 0, x_outUsed = 0\<rparr>"
  have p: "pending ?x1 = []" by (simp add: pending_def)
  have cp: "cap ?x1 = c_bs c" by (simp add: cap_def)
  have k: "refill_blocks ?blk ?x1 = c_bs c div ?bs" by (simp add: refill_blocks_def p cp)
  from refill_general[OF bs, of ?x1] obtain x2 where
    r: "refill ?blk ?x1 = Some (Inr x2)" and u2: "x_outUsed x2 = 0" and c2: "cap x2 = c_bs c"
    and l2: "length (x_out x2) = c_bs c div ?bs * ?bs"
    by (auto simp: p cp k)
  have fit: "?bs \<le> length (x_out x2)" unfolding l2 using bs cb by (rule blocks_fit)
  have nb: "\<not> (bOff < 0 \<or> int (length (x_out x2)) < bOff)" using o fit by linarith
  let ?x = "x2\<lparr>x_out := drop (nat bOff) (x_out x2)\<rparr>"
  have "initCTR c bN bOff = Some (Inr ?x)"
    by (simp only: initCTR_refill_state r option.case sum.case nb if_False)
  moreover have "cap ?x = c_bs c - nat bOff"
    using c2 fit o by (simp add: cap_def)
  ultimately show ?thesis using u2 l2 by (intro exI[of _ ?x]) simp
qed

lemma initCTR_wf:
  assumes wf: "wf_Block (c_b c)" and bs: "1 \<le> BlockSize (c_b c)"
    and cb: "BlockSize (c_b c) \<le> c_bs c" and li: "length (c_iv c) = BlockSize (c_b c)"
    and o: "0 \<le> bOff" "bOff < int (BlockSize (c_b c))" and bn: "0 \<le> bN"
  shows "\<exists>x. initCTR c bN bOff = Some (Inr x) \<and> state_ok (c_b c) x
             \<and> cap x = c_bs c - nat bOff
             \<and> (\<forall>i. stream_at (c_b c) x i
                      = ks_at (c_b c) (c_iv c) (nat bN * BlockSize (c_b c) + nat bOff + i))"
proof -
  let ?blk = "c_b c" and ?bs = "BlockSize (c_b c)"
  let ?c0 = "(increment ^^ nat bN) (c_iv c)"
  let ?k = "c_bs c div ?bs"
  let ?x1 = "\<lparr>x_ctr = ?c0, x_out = [], x_spare = replicate (c_bs c) 0, x_outUsed = 0\<rparr>"
  have c0: "initCTR_fill_ctr (length (c_iv c)) bN (c_iv c) = ?c0"
    using bn by (rule initCTR_fill_ctr_eq_funpow)
  have l0: "length ?c0 = ?bs" by (simp add: li)
  have p: "pending ?x1 = []" by (simp add: pending_def)
  have cp: "cap ?x1 = c_bs c" by (simp add: cap_def)
  have k: "refill_blocks ?blk ?x1 = ?k" by (simp add: refill_blocks_def p cp)
  have ok1: "state_ok ?blk ?x1" by (simp add: state_ok_def li)
  from refill_wf[OF wf bs ok1] obtain x2 where
    r: "refill ?blk ?x1 = Some (Inr x2)" and u2: "x_outUsed x2 = 0"
    and c2': "cap x2 = cap ?x1"
    and o2': "x_out x2 = pending ?x1 @ ks_blocks ?blk (x_ctr ?x1) (refill_blocks ?blk ?x1)"
    and t2': "x_ctr x2 = (increment ^^ refill_blocks ?blk ?x1) (x_ctr ?x1)"
    by blast
  have c2: "cap x2 = c_bs c" using c2' cp by simp
  have o2: "x_out x2 = ks_blocks ?blk ?c0 ?k" using o2' by (simp add: p k)
  have t2: "x_ctr x2 = (increment ^^ ?k) ?c0" using t2' by (simp add: k)
  have l2: "length (x_out x2) = ?k * ?bs" unfolding o2 by (rule ks_blocks_length[OF wf l0])
  have fit: "?bs \<le> ?k * ?bs" using bs cb by (rule blocks_fit)
  have nb: "\<not> (bOff < 0 \<or> int (length (x_out x2)) < bOff)" using o fit l2 by linarith
  let ?x = "x2\<lparr>x_out := drop (nat bOff) (x_out x2)\<rparr>"
  have I: "initCTR c bN bOff = Some (Inr ?x)"
    by (simp only: initCTR_refill_state c0 r option.case sum.case nb if_False)
  have d: "nat bOff \<le> ?k * ?bs" using o fit by linarith
  have C: "cap ?x = c_bs c - nat bOff"
  proof -
    have "nat bOff \<le> length (x_out x2)" using d by (simp only: l2)
    then show ?thesis using c2 by (simp add: cap_def)
  qed
  have ok: "state_ok ?blk ?x" by (simp add: state_ok_def u2 t2 li)
  have S: "\<forall>i. stream_at ?blk ?x i = ks_at ?blk (c_iv c) (nat bN * ?bs + nat bOff + i)"
  proof
    fix i
    have "stream_at ?blk ?x i = ks_at ?blk ?c0 (nat bOff + i)"
      by (rule stream_at_fresh[OF wf bs l0 _ _ _ d]) (simp_all add: u2 o2 t2)
    also have "\<dots> = ks_at ?blk (c_iv c) (nat bN * ?bs + (nat bOff + i))"
      by (rule ks_at_shift[OF bs])
    finally show "stream_at ?blk ?x i = ks_at ?blk (c_iv c) (nat bN * ?bs + nat bOff + i)"
      by (simp add: add.assoc)
  qed
  show ?thesis using I C ok S by (intro exI[of _ ?x]) simp
qed

lemma go_offset_split:
  fixes off b :: int
  assumes "0 \<le> off" and "0 < b"
  shows "off smod b = off mod b" and "(off - off mod b) sdiv b = off div b"
proof -
  show "off smod b = off mod b"
    using assms by (cases "off = 0") (simp_all add: smod_int_alt_def sgn_if)
  have e: "off - off mod b = b * (off div b)" by (simp add: minus_mod_eq_mult_div)
  have d: "0 \<le> off div b" using assms by (simp add: pos_imp_zdiv_nonneg_iff)
  have "(b * (off div b)) sdiv b = off div b"
  proof (cases "off div b = 0")
    case True then show ?thesis by simp
  next
    case False
    then have "0 < off div b" using d by simp
    then have "0 < b * (off div b)" using assms by simp
    then show ?thesis using assms by (simp add: signed_divide_int_def sgn_if)
  qed
  then show "(off - off mod b) sdiv b = off div b" by (simp only: e)
qed

lemma ReadAt_unfold:
  assumes bs: "1 \<le> BlockSize (c_b c)" and off: "0 \<le> off"
  shows "ReadAt c p off =
     (case initCTR c (off div int (BlockSize (c_b c))) (off mod int (BlockSize (c_b c))) of
        None \<Rightarrow> None
      | Some (Inl e) \<Rightarrow> Some (Inl e)
      | Some (Inr state) \<Rightarrow>
          (case c_r c p off of (dat, n, err) \<Rightarrow>
             if err \<noteq> None then Some (Inr (copy_bytes p dat, n, err))
             else (case XORKeyStream (c_b c) state (copy_bytes p dat) (copy_bytes p dat) of
                     None \<Rightarrow> None
                   | Some (Inl e) \<Rightarrow> Some (Inl e)
                   | Some (Inr (state1, p2)) \<Rightarrow> Some (Inr (p2, n, err)))))"
proof -
  have b: "0 < int (BlockSize (c_b c))" and nz: "BlockSize (c_b c) \<noteq> 0" using bs by simp_all
  show ?thesis
    unfolding ReadAt_def Let_def go_offset_split[OF off b]
    using nz by simp
qed

lemma mod_bounds:
  assumes "1 \<le> (bs::nat)"
  shows "0 \<le> off mod int bs" and "off mod int bs < int bs"
  using assms by simp_all

lemma ReadAt_source_error:
  assumes bs: "1 \<le> BlockSize (c_b c)" and cb: "BlockSize (c_b c) \<le> c_bs c"
    and off: "0 \<le> off" and rd: "c_r c p off = (dat, n, Some e)"
  shows "ReadAt c p off = Some (Inr (copy_bytes p dat, n, Some e))"
proof -
  from initCTR_general[OF bs cb mod_bounds[OF bs]]
  obtain x where "initCTR c (off div int (BlockSize (c_b c))) (off mod int (BlockSize (c_b c)))
                    = Some (Inr x)" by blast
  then show ?thesis by (simp add: ReadAt_unfold[OF bs off] rd)
qed

lemma XORKeyStream_Nil: "XORKeyStream blk x dst [] = Some (Inr (x, dst))"
  by (subst XORKeyStream.simps) simp

lemma ReadAt_zero_length:
  assumes bs: "1 \<le> BlockSize (c_b c)" and cb: "BlockSize (c_b c) \<le> c_bs c"
    and off: "0 \<le> off" and rd: "c_r c [] off = (dat, n, err)"
  shows "ReadAt c [] off = Some (Inr ([], n, err))"
proof -
  from initCTR_general[OF bs cb mod_bounds[OF bs]]
  obtain x where "initCTR c (off div int (BlockSize (c_b c))) (off mod int (BlockSize (c_b c)))
                    = Some (Inr x)" by blast
  then show ?thesis by (simp add: ReadAt_unfold[OF bs off] rd XORKeyStream_Nil)
qed

lemma nat_div_mod_split:
  assumes "0 \<le> off" and "1 \<le> (bs::nat)"
  shows "nat (off div int bs) * bs + nat (off mod int bs) = nat off"
proof -
  have "int (nat (off div int bs) * bs + nat (off mod int bs)) = off div int bs * int bs + off mod int bs"
    using assms by (simp add: pos_imp_zdiv_nonneg_iff)
  also have "\<dots> = off" by simp
  finally show ?thesis using assms by linarith
qed

lemma ReadAt_ok:
  assumes wf: "wf_Block (c_b c)" and bs: "1 \<le> BlockSize (c_b c)"
    and cb: "BlockSize (c_b c) \<le> c_bs c" and li: "length (c_iv c) = BlockSize (c_b c)"
    and off: "0 \<le> off" and rd: "c_r c p off = (dat, n, None)"
    and room: "BlockSize (c_b c) + nat (off mod int (BlockSize (c_b c))) \<le> c_bs c"
  shows "ReadAt c p off
       = Some (Inr (map (\<lambda>i. copy_bytes p dat ! i XOR ks_at (c_b c) (c_iv c) (nat off + i))
                      [0..<length p], n, None))"
proof -
  let ?blk = "c_b c" and ?bs = "BlockSize (c_b c)"
  let ?bN = "off div int ?bs" and ?bOff = "off mod int ?bs"
  let ?p1 = "copy_bytes p dat"
  have bn: "0 \<le> ?bN" using off bs by (simp add: pos_imp_zdiv_nonneg_iff)
  from initCTR_wf[OF wf bs cb li mod_bounds[OF bs] bn]
  obtain x where i: "initCTR c ?bN ?bOff = Some (Inr x)" and ok: "state_ok ?blk x"
    and cp: "cap x = c_bs c - nat ?bOff"
    and st: "\<And>i. stream_at ?blk x i = ks_at ?blk (c_iv c) (nat ?bN * ?bs + nat ?bOff + i)"
    by blast
  have cpx: "?bs \<le> cap x" using room cp by linarith
  from XORKeyStream_correct[OF wf bs ok cpx, of ?p1 ?p1]
  obtain x' where
    k: "XORKeyStream ?blk x ?p1 ?p1
         = Some (Inr (x', map (\<lambda>i. ?p1 ! i XOR stream_at ?blk x i) [0..<length ?p1]
                          @ drop (length ?p1) ?p1))" by auto
  have s: "\<And>i. stream_at ?blk x i = ks_at ?blk (c_iv c) (nat off + i)"
    using st nat_div_mod_split[OF off bs] by simp
  show ?thesis by (simp add: ReadAt_unfold[OF bs off] i rd k s)
qed

lemma XORKeyStream_stuck:
  assumes "XORKeyStream blk x dst src = Some y"
  shows "never_stuck blk x dst src y"
proof (rule XORKeyStream.raw_induct[where xa = "(((blk, x), dst), src)", unfolded prod.case,
         OF _ assms], goal_cases)
  case (1 f blk x dst src y)
  show ?case unfolding never_stuck_def
  proof
    assume "stuck blk x src"
    then have bs: "1 \<le> BlockSize blk" and ne: "src \<noteq> []"
      and u: "x_outUsed x = int (length (x_out x))" and cp: "cap x < BlockSize blk"
      by (simp_all add: stuck_def)
    have p: "pending x = []" by (simp add: pending_def u)
    have k: "refill_blocks blk x = 0" using cp by (simp add: refill_blocks_def p)
    from refill_general[OF bs, of x] u obtain x1 where
      r: "refill blk x = Some (Inr x1)" and u1: "x_outUsed x1 = 0" and c1: "cap x1 = cap x"
      and l1: "length (x_out x1) = 0" by (auto simp: p k)
    have o1: "x_out x1 = []" using l1 by simp
    have xb: "xorBytes dst src [] = Inr (dst, 0)" by (simp add: xorBytes_def)
    let ?x2 = "x1\<lparr>x_outUsed := 0\<rparr>"
    have "Option.bind (f blk ?x2 dst src)
            (\<lambda>r2. case r2 of Inl e \<Rightarrow> Some (Inl e)
                   | Inr (x2, dst2) \<Rightarrow> Some (Inr (x2, dst2))) = Some y"
      using 1(2) ne u by (simp add: r u1 o1 xb)
    then obtain y2 where "f blk ?x2 dst src = Some y2" by (auto simp: bind_eq_Some_conv)
    from 1(1)[OF this] show False
      using bs ne cp c1 by (simp add: never_stuck_def stuck_def o1 cap_def)
  qed
qed

lemma XORKeyStream_diverges:
  assumes "1 \<le> BlockSize blk" and "src \<noteq> []" and "x_outUsed x = int (length (x_out x))"
    and "cap x < BlockSize blk"
  shows "XORKeyStream blk x dst src = None"
proof (cases "XORKeyStream blk x dst src")
  case None then show ?thesis .
next
  case (Some y)
  from XORKeyStream_stuck[OF this] assms show ?thesis
    by (simp add: never_stuck_def stuck_def)
qed

lemma XORKeyStream_runs_dry:
  assumes bs: "1 \<le> BlockSize blk" and u: "x_outUsed x = 0"
    and cp: "cap x < BlockSize blk" and long: "length (x_out x) < length src"
    and ld: "length src \<le> length dst"
  shows "XORKeyStream blk x dst src = None"
proof -
  let ?n = "length (x_out x)"
  have p: "pending x = x_out x" by (simp add: pending_def u)
  have k: "refill_blocks blk x = 0" using cp by (simp add: refill_blocks_def p cap_def)
  from refill_general[OF bs, of x] u obtain x1 where
    r: "refill blk x = Some (Inr x1)" and u1: "x_outUsed x1 = 0" and c1: "cap x1 = cap x"
    and l1: "length (x_out x1) = ?n" by (auto simp: p k)
  have cond: "int (length (x_out x)) - int (BlockSize blk) \<le> x_outUsed x"
    using cp u by (simp add: cap_def)
  have m: "min (length src) (length (x_out x1)) = ?n" using long l1 by simp
  have xb: "xorBytes dst src (x_out x1)
      = Inr (map2 (XOR) (take ?n src) (take ?n (x_out x1)) @ drop ?n dst, ?n)"
    using xorBytes_ok[of src "x_out x1" dst] long ld by (simp only: m)
  let ?x2 = "x1\<lparr>x_outUsed := int ?n\<rparr>"
  have d: "XORKeyStream blk ?x2 (drop ?n dst) (drop ?n src) = None"
    using bs long cp c1 by (intro XORKeyStream_diverges) (simp_all add: l1 cap_def)
  have ne: "src \<noteq> []" using long by auto
  show ?thesis
    using ne long l1
    by (subst XORKeyStream.simps) (simp add: cond r u1 xb d)
qed

lemma ReadAt_diverges:
  assumes bs: "1 \<le> BlockSize (c_b c)" and cb: "BlockSize (c_b c) \<le> c_bs c"
    and off: "0 \<le> off" and rd: "c_r c p off = (dat, n, None)"
    and small: "c_bs c < BlockSize (c_b c) + nat (off mod int (BlockSize (c_b c)))"
    and long: "c_bs c div BlockSize (c_b c) * BlockSize (c_b c)
                 - nat (off mod int (BlockSize (c_b c))) < length p"
  shows "ReadAt c p off = None"
proof -
  let ?bs = "BlockSize (c_b c)"
  from initCTR_general[OF bs cb mod_bounds[OF bs]]
  obtain x where i: "initCTR c (off div int ?bs) (off mod int ?bs) = Some (Inr x)"
    and u: "x_outUsed x = 0" and cp: "cap x = c_bs c - nat (off mod int ?bs)"
    and l: "length (x_out x) = c_bs c div ?bs * ?bs - nat (off mod int ?bs)" by blast
  have "XORKeyStream (c_b c) x (copy_bytes p dat) (copy_bytes p dat) = None"
    using bs u small long by (intro XORKeyStream_runs_dry) (simp_all add: cp l)
  then show ?thesis by (simp add: ReadAt_unfold[OF bs off] i rd)
qed

lemma NewCTRReaderAt_Inr:
  assumes "length iv = BlockSize blk"
  shows "NewCTRReaderAt blk iv rd
       = Inr \<lparr>c_b = blk, c_iv = iv, c_bs = max streamBufferSize (BlockSize blk), c_r = rd\<rparr>"
  using assms by (simp add: NewCTRReaderAt_def Let_def max_def)

lemma setCTR_eq:
  assumes bs: "1 \<le> BlockSize (p_b x)"
  shows "setCTR x bN =
     (let r = fill_steps (p_b x) (length (x_out (p_x x)) div BlockSize (p_b x)) 0 (x_out (p_x x))
                ((increment ^^ nat bN) (copy_bytes (x_ctr (p_x x)) (p_iv x)))
      in Some (x\<lparr>p_x := \<lparr>x_ctr = snd (snd r), x_out = take (fst r) (fst (snd r)),
                          x_spare = drop (fst r) (fst (snd r)) @ x_spare (p_x x),
                          x_outUsed = 0\<rparr>\<rparr>))"
  using fill_out_eq[OF bs, of 0 "x_out (p_x x)"]
  by (simp add: setCTR_def Let_def case_prod_beta)

lemma setCTR_general:
  assumes inv: "inv_p0 x"
  shows "\<exists>x1. setCTR x bN = Some x1 \<and> p_b x1 = p_b x \<and> p_iv x1 = p_iv x \<and> p_r x1 = p_r x
            \<and> inv_p0 x1 \<and> x_outUsed (p_x x1) = 0"
proof -
  let ?bs = "BlockSize (p_b x)" and ?st = "p_x x"
  let ?k = "length (x_out ?st) div ?bs"
  let ?c1 = "(increment ^^ nat bN) (copy_bytes (x_ctr ?st) (p_iv x))"
  let ?r = "fill_steps (p_b x) ?k 0 (x_out ?st) ?c1"
  let ?x1 = "x\<lparr>p_x := \<lparr>x_ctr = snd (snd ?r), x_out = take (fst ?r) (fst (snd ?r)),
                        x_spare = drop (fst ?r) (fst (snd ?r)) @ x_spare ?st,
                        x_outUsed = 0\<rparr>\<rparr>"
  have bs: "1 \<le> ?bs" and li: "length (p_iv x) = ?bs" and lc: "length (x_ctr ?st) = ?bs"
    and cp: "?bs \<le> cap ?st" using inv by (simp_all add: inv_p0_def)
  have s: "setCTR x bN = Some ?x1" by (simp add: setCTR_eq[OF bs] Let_def)
  have le: "?k * ?bs \<le> length (x_out ?st)" by simp
  have c: "cap (p_x ?x1) = cap ?st" by (simp add: cap_def trans_le_add1)
  have "inv_p0 ?x1" using bs li lc cp c by (simp add: inv_p0_def)
  then show ?thesis using s by (intro exI[of _ ?x1]) simp
qed

lemma setCTR_wf:
  assumes wf: "wf_Block (p_b x)" and inv: "inv_p0 x"
  shows "\<exists>x1. setCTR x bN = Some x1 \<and> p_b x1 = p_b x \<and> p_iv x1 = p_iv x \<and> p_r x1 = p_r x
            \<and> inv_p0 x1 \<and> state_ok (p_b x) (p_x x1) \<and> cap (p_x x1) = cap (p_x x)
            \<and> (\<forall>i. stream_at (p_b x) (p_x x1) i
                     = ks_at (p_b x) (p_iv x) (nat bN * BlockSize (p_b x) + i))"
proof -
  let ?blk = "p_b x" and ?bs = "BlockSize (p_b x)" and ?st = "p_x x"
  let ?k = "length (x_out ?st) div ?bs"
  let ?c1 = "(increment ^^ nat bN) (p_iv x)"
  have bs: "1 \<le> ?bs" and li: "length (p_iv x) = ?bs" and lc: "length (x_ctr ?st) = ?bs"
    and cp: "?bs \<le> cap ?st" using inv by (simp_all add: inv_p0_def)
  have c0: "copy_bytes (x_ctr ?st) (p_iv x) = p_iv x"
    by (rule copy_bytes_same_length) (simp add: li lc)
  have l1: "length ?c1 = ?bs" by (simp add: li)
  have le: "0 + ?k * ?bs \<le> length (x_out ?st)" by simp
  have r: "fill_steps ?blk ?k 0 (x_out ?st) ?c1
         = (0 + ?k * ?bs, take 0 (x_out ?st) @ ks_blocks ?blk ?c1 ?k
                            @ drop (0 + ?k * ?bs) (x_out ?st), (increment ^^ ?k) ?c1)"
    by (rule fill_steps_wf[OF wf l1 le])
  have lk: "length (ks_blocks ?blk ?c1 ?k) = ?k * ?bs" by (rule ks_blocks_length[OF wf l1])
  let ?st1 = "\<lparr>x_ctr = (increment ^^ ?k) ?c1, x_out = ks_blocks ?blk ?c1 ?k,
               x_spare = drop (?k * ?bs) (x_out ?st) @ x_spare ?st, x_outUsed = 0\<rparr>"
  let ?x1 = "x\<lparr>p_x := ?st1\<rparr>"
  have s: "setCTR x bN = Some ?x1"
    using lk by (simp add: setCTR_eq[OF bs] Let_def c0 r)
  have c: "cap ?st1 = cap ?st" using lk by (simp add: cap_def trans_le_add1)
  have i1: "inv_p0 ?x1" using bs li cp c by (simp add: inv_p0_def)
  have ok: "state_ok ?blk ?st1" by (simp add: state_ok_def li)
  have S: "\<forall>i. stream_at ?blk ?st1 i = ks_at ?blk (p_iv x) (nat bN * ?bs + i)"
  proof
    fix i
    have "stream_at ?blk ?st1 i = ks_at ?blk ?c1 (0 + i)"
      by (rule stream_at_fresh[OF wf bs l1, where k = ?k]) simp_all
    also have "\<dots> = ks_at ?blk (p_iv x) (nat bN * ?bs + (0 + i))"
      by (rule ks_at_shift[OF bs])
    finally show "stream_at ?blk ?st1 i = ks_at ?blk (p_iv x) (nat bN * ?bs + i)" by simp
  qed
  show ?thesis using s i1 ok c S by (intro exI[of _ ?x1]) simp
qed

lemma ReadAt_p0_unfold:
  assumes bs: "1 \<le> BlockSize (p_b x)" and off: "0 \<le> off"
  shows "ReadAt_p0 x p off =
     (case setCTR x (off div int (BlockSize (p_b x))) of
        None \<Rightarrow> None
      | Some x1 \<Rightarrow>
          (case p_r x1 p off of (dat, n, err) \<Rightarrow>
             if err \<noteq> None then Some (Inr (x1, copy_bytes p dat, n, err))
             else (case XORKeyStream (p_b x1) (p_x x1) (copy_bytes p dat) (copy_bytes p dat) of
                     None \<Rightarrow> None
                   | Some (Inl e) \<Rightarrow> Some (Inl e)
                   | Some (Inr (state1, p2)) \<Rightarrow>
                       Some (Inr (x1\<lparr>p_x := state1\<rparr>, p2, n, err)))))"
proof -
  have b: "0 < int (BlockSize (p_b x))" and nz: "BlockSize (p_b x) \<noteq> 0" using bs by simp_all
  show ?thesis
    unfolding ReadAt_p0_def Let_def go_offset_split[OF off b]
    using nz by simp
qed

lemma ReadAt_p0_source_error:
  assumes inv: "inv_p0 x" and off: "0 \<le> off" and rd: "p_r x p off = (dat, n, Some e)"
  shows "\<exists>x1. ReadAt_p0 x p off = Some (Inr (x1, copy_bytes p dat, n, Some e))
            \<and> inv_p0 x1 \<and> p_b x1 = p_b x \<and> p_iv x1 = p_iv x \<and> p_r x1 = p_r x"
proof -
  have bs: "1 \<le> BlockSize (p_b x)" using inv by (simp add: inv_p0_def)
  from setCTR_general[OF inv, of "off div int (BlockSize (p_b x))"]
  obtain x1 where s: "setCTR x (off div int (BlockSize (p_b x))) = Some x1"
    and f: "p_b x1 = p_b x" "p_iv x1 = p_iv x" "p_r x1 = p_r x" and i1: "inv_p0 x1" by blast
  have "ReadAt_p0 x p off = Some (Inr (x1, copy_bytes p dat, n, Some e))"
    by (simp add: ReadAt_p0_unfold[OF bs off] s f rd)
  then show ?thesis using i1 f by blast
qed

lemma ReadAt_p0_zero_length:
  assumes inv: "inv_p0 x" and off: "0 \<le> off" and rd: "p_r x [] off = (dat, n, err)"
  shows "\<exists>x1. ReadAt_p0 x [] off = Some (Inr (x1, [], n, err))
            \<and> inv_p0 x1 \<and> p_b x1 = p_b x \<and> p_iv x1 = p_iv x \<and> p_r x1 = p_r x"
proof -
  have bs: "1 \<le> BlockSize (p_b x)" using inv by (simp add: inv_p0_def)
  from setCTR_general[OF inv, of "off div int (BlockSize (p_b x))"]
  obtain x1 where s: "setCTR x (off div int (BlockSize (p_b x))) = Some x1"
    and f: "p_b x1 = p_b x" "p_iv x1 = p_iv x" "p_r x1 = p_r x" and i1: "inv_p0 x1" by blast
  have e: "x1\<lparr>p_x := p_x x1\<rparr> = x1" by simp
  have "ReadAt_p0 x [] off = Some (Inr (x1, [], n, err))"
    by (cases err) (simp_all add: ReadAt_p0_unfold[OF bs off] s f rd XORKeyStream_Nil)
  then show ?thesis using i1 f by blast
qed

lemma ReadAt_p0_ok:
  assumes wf: "wf_Block (p_b x)" and inv: "inv_p0 x" and off: "0 \<le> off"
    and rd: "p_r x p off = (dat, n, None)"
  shows "\<exists>x2. ReadAt_p0 x p off
              = Some (Inr (x2, map (\<lambda>i. copy_bytes p dat ! i XOR
                                      ks_at (p_b x) (p_iv x)
                                        (nat (off div int (BlockSize (p_b x))) * BlockSize (p_b x) + i))
                                [0..<length p], n, None))
            \<and> inv_p0 x2 \<and> p_b x2 = p_b x \<and> p_iv x2 = p_iv x \<and> p_r x2 = p_r x"
proof -
  let ?blk = "p_b x" and ?bs = "BlockSize (p_b x)"
  let ?bN = "off div int ?bs"
  let ?p1 = "copy_bytes p dat"
  have bs: "1 \<le> ?bs" using inv by (simp add: inv_p0_def)
  from setCTR_wf[OF wf inv, of ?bN]
  obtain x1 where s: "setCTR x ?bN = Some x1"
    and f: "p_b x1 = p_b x" "p_iv x1 = p_iv x" "p_r x1 = p_r x" and i1: "inv_p0 x1"
    and ok: "state_ok ?blk (p_x x1)"
    and st: "\<And>i. stream_at ?blk (p_x x1) i = ks_at ?blk (p_iv x) (nat ?bN * ?bs + i)"
    by blast
  have cp: "?bs \<le> cap (p_x x1)" using i1 f by (simp add: inv_p0_def)
  from XORKeyStream_correct[OF wf bs ok cp, of ?p1 ?p1]
  obtain st' where
    k: "XORKeyStream ?blk (p_x x1) ?p1 ?p1
         = Some (Inr (st', map (\<lambda>i. ?p1 ! i XOR stream_at ?blk (p_x x1) i) [0..<length ?p1]
                          @ drop (length ?p1) ?p1))"
    and ok': "state_ok ?blk st'" and c': "cap st' = cap (p_x x1)" by auto
  let ?x2 = "x1\<lparr>p_x := st'\<rparr>"
  have r: "ReadAt_p0 x p off
      = Some (Inr (?x2, map (\<lambda>i. ?p1 ! i XOR ks_at ?blk (p_iv x) (nat ?bN * ?bs + i))
                          [0..<length p], n, None))"
    by (simp add: ReadAt_p0_unfold[OF bs off] s f rd k st)
  have i2: "inv_p0 ?x2" using i1 ok' c' f by (simp add: inv_p0_def state_ok_def)
  show ?thesis using r i2 f by (intro exI[of _ ?x2]) simp
qed

lemma NewCTRReaderAt_p0_Inr:
  assumes "length iv = BlockSize blk"
  shows "NewCTRReaderAt_p0 blk iv rd
       = Inr \<lparr>p_b = blk, p_iv = iv,
               p_x = \<lparr>x_ctr = iv, x_out = [],
                      x_spare = replicate (max streamBufferSize (BlockSize blk)) 0,
                      x_outUsed = 0\<rparr>,
               p_r = rd\<rparr>"
  using assms by (simp add: NewCTRReaderAt_p0_def Let_def max_def)

lemma NewCTRReaderAt_p0_inv:
  assumes "NewCTRReaderAt_p0 blk iv rd = Inr x" and "1 \<le> BlockSize blk"
  shows "inv_p0 x \<and> p_b x = blk \<and> p_iv x = iv \<and> p_r x = rd"
proof -
  have l: "length iv = BlockSize blk"
    using assms(1) by (auto simp: NewCTRReaderAt_p0_def split: if_splits)
  show ?thesis using assms NewCTRReaderAt_p0_Inr[OF l, of rd]
    by (auto simp: inv_p0_def cap_def l)
qed

lemma NewCTRReaderAt_props:
  assumes "NewCTRReaderAt blk iv rd = Inr c"
  shows "c_b c = blk \<and> c_iv c = iv \<and> c_r c = rd \<and> length iv = BlockSize blk
       \<and> c_bs c = max streamBufferSize (BlockSize blk) \<and> BlockSize blk \<le> c_bs c"
proof -
  have l: "length iv = BlockSize blk"
    using assms by (auto simp: NewCTRReaderAt_def split: if_splits)
  show ?thesis using assms NewCTRReaderAt_Inr[OF l, of rd] l by auto
qed

section \<open>Standard counter mode and the round trip\<close>

lemma be_bytes_length [simp]: "length (be_bytes n v) = n"
  by (induction n arbitrary: v) simp_all

lemma be_val_be_bytes: "be_val (be_bytes n v) = v mod 256 ^ n"
proof (induction n arbitrary: v)
  case 0 show ?case by simp
next
  case (Suc n)
  have u: "unat (of_nat (v mod 256) :: byte) = v mod 256"
    by (simp add: unat_of_nat)
  have "v mod (256 * 256 ^ n) = 256 * (v div 256 mod 256 ^ n) + v mod 256"
    by (rule mod_mult2_eq)
  then show ?case by (simp add: Suc.IH u mult.commute)
qed

lemma increment_funpow_std: "(increment ^^ j) iv = std_counter iv j"
proof (rule be_val_inj)
  show "length ((increment ^^ j) iv) = length (std_counter iv j)" by (simp add: std_counter_def)
  have p: "(256::nat) ^ length iv = 2 ^ (8 * length iv)" by (simp add: power_mult)
  show "be_val ((increment ^^ j) iv) = be_val (std_counter iv j)"
    by (simp add: increment_funpow_val std_counter_def be_val_be_bytes p)
qed

lemma ks_at_std: "ks_at blk iv i = std_keystream blk iv i"
  by (simp add: ks_at_def std_keystream_def increment_funpow_std)

lemma std_ctr_encrypt_length [simp]: "length (std_ctr_encrypt blk iv pt) = length pt"
  by (simp add: std_ctr_encrypt_def)

lemma byte_xor_cancel: "((a::byte) XOR k) XOR k = a"
  by (simp add: xor.assoc)

lemma slice_source_inside:
  assumes "0 \<le> off" and "nat off + length p \<le> length s" and "nat off < length s"
  shows "slice_source s p off = (take (length p) (drop (nat off) s), int (length p), None)"
proof -
  have a: "\<not> off < 0" and b: "\<not> int (length s) \<le> off" using assms by linarith+
  have l: "length (take (length p) (drop (nat off) s)) = length p" using assms by simp
  show ?thesis by (simp only: slice_source_def a b if_False Let_def l) simp
qed

lemma xor_Block_simps [simp]:
  "BlockSize (xor_Block n k) = n" "Encrypt (xor_Block n k) c = map (\<lambda>b. b XOR k) c"
  by (simp_all add: xor_Block_def)

lemma xor_Block_wf [simp]: "wf_Block (xor_Block n k)"
  by (simp add: wf_Block_def)

lemma decrypt_slice:
  assumes "nat off + length p \<le> length pt"
  shows "map (\<lambda>i. copy_bytes p (take (length p) (drop (nat off) (std_ctr_encrypt blk iv pt))) ! i
                  XOR std_keystream blk iv (nat off + i)) [0..<length p]
       = take (length p) (drop (nat off) pt)"
proof (rule nth_equalityI)
  show "length (map (\<lambda>i. copy_bytes p (take (length p) (drop (nat off) (std_ctr_encrypt blk iv pt))) ! i
                  XOR std_keystream blk iv (nat off + i)) [0..<length p])
      = length (take (length p) (drop (nat off) pt))"
    using assms by simp
next
  fix i
  assume "i < length (map (\<lambda>i. copy_bytes p (take (length p) (drop (nat off) (std_ctr_encrypt blk iv pt))) ! i
                  XOR std_keystream blk iv (nat off + i)) [0..<length p])"
  then have i: "i < length p" by simp
  let ?ct = "std_ctr_encrypt blk iv pt"
  have l: "length (take (length p) (drop (nat off) ?ct)) = length p" using assms by simp
  have c: "copy_bytes p (take (length p) (drop (nat off) ?ct)) = take (length p) (drop (nat off) ?ct)"
    by (rule copy_bytes_same_length) (simp only: l)
  have j: "nat off + i < length pt" using i assms by linarith
  have "take (length p) (drop (nat off) ?ct) ! i = ?ct ! (nat off + i)"
    using i j by simp
  also have "\<dots> = pt ! (nat off + i) XOR std_keystream blk iv (nat off + i)"
    using j by (simp add: std_ctr_encrypt_def)
  finally have "copy_bytes p (take (length p) (drop (nat off) ?ct)) ! i
                  XOR std_keystream blk iv (nat off + i) = pt ! (nat off + i)"
    by (simp only: c byte_xor_cancel)
  then show "map (\<lambda>i. copy_bytes p (take (length p) (drop (nat off) ?ct)) ! i
                  XOR std_keystream blk iv (nat off + i)) [0..<length p] ! i
           = take (length p) (drop (nat off) pt) ! i"
    using i j by simp
qed

lemma ReadAt_roundtrip:
  assumes wf: "wf_Block blk" and n: "NewCTRReaderAt blk iv rd = Inr c"
    and bs: "1 \<le> BlockSize blk" and small: "2 * BlockSize blk \<le> streamBufferSize"
    and off: "0 \<le> off" and inside: "nat off + length p \<le> length pt"
    and rd: "rd p off = (take (length p) (drop (nat off) (std_ctr_encrypt blk iv pt)),
                         int (length p), None)"
  shows "ReadAt c p off = Some (Inr (take (length p) (drop (nat off) pt), int (length p), None))"
proof -
  from NewCTRReaderAt_props[OF n]
  have f: "c_b c = blk" "c_iv c = iv" "c_r c = rd" "length iv = BlockSize blk"
    "c_bs c = max streamBufferSize (BlockSize blk)" "BlockSize blk \<le> c_bs c" by simp_all
  have "nat (off mod int (BlockSize blk)) < BlockSize blk"
    using mod_bounds[OF bs, of off] by linarith
  then have room: "BlockSize (c_b c) + nat (off mod int (BlockSize (c_b c))) \<le> c_bs c"
    using small by (simp add: f)
  have "ReadAt c p off
      = Some (Inr (map (\<lambda>i. copy_bytes p (take (length p) (drop (nat off) (std_ctr_encrypt blk iv pt))) ! i
                             XOR ks_at (c_b c) (c_iv c) (nat off + i)) [0..<length p],
                   int (length p), None))"
    using bs by (intro ReadAt_ok[OF _ _ _ _ off _ room]) (simp_all add: f wf rd)
  then show ?thesis by (simp only: f ks_at_std decrypt_slice[OF inside])
qed

section \<open>Invariants of the loop and results of part_000\<close>

lemma refill_cursor:
  assumes "refill blk x = Some (Inr x1)"
  shows "cursor_ok x1"
  using assms
  by (auto simp: refill_def Let_def cursor_ok_def split: if_splits option.splits prod.splits)

lemma xorBytes_count:
  assumes "xorBytes dst src b = Inr (d, n)"
  shows "n \<le> length b \<and> n \<le> length src \<and> n \<le> length dst"
  using assms by (auto simp: xorBytes_def Let_def split: if_splits)

lemma consume_cursor:
  assumes ok: "cursor_ok x" and xb: "xorBytes dst src (drop (nat (x_outUsed x)) (x_out x)) = Inr (d, n)"
  shows "cursor_ok (x\<lparr>x_outUsed := x_outUsed x + int n\<rparr>)"
proof -
  have "n \<le> length (x_out x) - nat (x_outUsed x)" using xorBytes_count[OF xb] by simp
  then show ?thesis using ok by (simp add: cursor_ok_def) linarith
qed

lemma XORKeyStream_keeps_cursor:
  assumes "XORKeyStream blk x dst src = Some y"
  shows "keeps_cursor blk x dst src y"
proof (rule XORKeyStream.raw_induct[where xa = "(((blk, x), dst), src)", unfolded prod.case,
         OF _ assms], goal_cases)
  case (1 f blk x dst src y)
  show ?case unfolding keeps_cursor_def
  proof
    assume ok: "cursor_ok x"
    show "case y of Inl e \<Rightarrow> True | Inr (x1, d) \<Rightarrow> cursor_ok x1"
    proof (cases "src = []")
      case True
      then show ?thesis using 1(2) ok by auto
    next
      case False
      let ?t = "if int (length (x_out x)) - int (BlockSize blk) \<le> x_outUsed x
                then refill blk x else Some (Inr x)"
      from 1(2) False obtain r where t: "?t = Some r" by (auto simp: bind_eq_Some_conv)
      show ?thesis
      proof (cases r)
        case (Inl e)
        then show ?thesis using 1(2) False t by (auto simp: bind_eq_Some_conv)
      next
        case (Inr x1)
        have ok1: "cursor_ok x1"
          using t Inr ok refill_cursor[of blk x x1] by (auto split: if_splits)
        then have nb: "\<not> (x_outUsed x1 < 0 \<or> int (length (x_out x1)) < x_outUsed x1)"
          by (simp add: cursor_ok_def)
        show ?thesis
        proof (cases "xorBytes dst src (drop (nat (x_outUsed x1)) (x_out x1))")
          case (Inl e)
          then show ?thesis using 1(2) False t Inr nb by (auto simp: bind_eq_Some_conv)
        next
          case (Inr dn)
          obtain d n where dn: "dn = (d, n)" by (cases dn)
          note xb = Inr[unfolded dn]
          let ?x2 = "x1\<lparr>x_outUsed := x_outUsed x1 + int n\<rparr>"
          have ok2: "cursor_ok ?x2" using ok1 xb by (rule consume_cursor)
          have t': "?t = Some (Inr x1)" using t \<open>r = Inr x1\<close> by simp
          have B: "Option.bind (f blk ?x2 (drop n d) (drop n src))
                     (\<lambda>r2. case r2 of Inl e \<Rightarrow> Some (Inl e)
                            | Inr (x2, dst2) \<Rightarrow> Some (Inr (x2, take n d @ dst2))) = Some y"
            using 1(2) False nb by (simp add: t' xb)
          then obtain y2 where f: "f blk ?x2 (drop n d) (drop n src) = Some y2"
            and y: "(case y2 of Inl e \<Rightarrow> Some (Inl e)
                     | Inr (x2, dst2) \<Rightarrow> Some (Inr (x2, take n d @ dst2))) = Some y"
            by (auto simp: bind_eq_Some_conv)
          from 1(1)[OF f] ok2 have k: "case y2 of Inl e \<Rightarrow> True | Inr (x1, d) \<Rightarrow> cursor_ok x1"
            by (simp add: keeps_cursor_def)
          show ?thesis
          proof (cases y2)
            case (Inl e)
            then show ?thesis using y by auto
          next
            case (Inr xd)
            then show ?thesis using y k by (cases xd) auto
          qed
        qed
      qed
    qed
  qed
qed

lemma refill_panic: "refill blk x = Some (Inl e) \<Longrightarrow> e = SliceBounds"
  by (auto simp: refill_def Let_def split: if_splits option.splits prod.splits)

lemma xorBytes_panic: "xorBytes dst src b = Inl e \<Longrightarrow> e = IndexRange"
  by (auto simp: xorBytes_def Let_def split: if_splits)

lemma XORKeyStream_no_iv_panic:
  assumes "XORKeyStream blk x dst src = Some y"
  shows "no_iv_panic blk x dst src y"
proof (rule XORKeyStream.raw_induct[where xa = "(((blk, x), dst), src)", unfolded prod.case,
         OF _ assms], goal_cases)
  case (1 f blk x dst src y)
  show ?case unfolding no_iv_panic_def
  proof
    assume y: "y = Inl IVLength"
    have ne: "src \<noteq> []" using 1(2) y by auto
    let ?t = "if int (length (x_out x)) - int (BlockSize blk) \<le> x_outUsed x
              then refill blk x else Some (Inr x)"
    from 1(2) ne obtain r where t: "?t = Some r" by (auto simp: bind_eq_Some_conv)
    show False
    proof (cases r)
      case (Inl e)
      then have "e = SliceBounds" using t refill_panic[of blk x e] by (auto split: if_splits)
      then show ?thesis using 1(2) ne t Inl y by simp
    next
      case (Inr x1)
      have t': "?t = Some (Inr x1)" using t Inr by simp
      show ?thesis
      proof (cases "x_outUsed x1 < 0 \<or> int (length (x_out x1)) < x_outUsed x1")
        case True
        then show ?thesis using 1(2) ne y by (simp add: t')
      next
        case False
        show ?thesis
        proof (cases "xorBytes dst src (drop (nat (x_outUsed x1)) (x_out x1))")
          case (Inl e)
          then have "e = IndexRange" by (rule xorBytes_panic)
          then show ?thesis using 1(2) ne y False Inl by (simp add: t')
        next
          case (Inr dn)
          obtain d n where dn: "dn = (d, n)" by (cases dn)
          note xb = Inr[unfolded dn]
          let ?x2 = "x1\<lparr>x_outUsed := x_outUsed x1 + int n\<rparr>"
          have B: "Option.bind (f blk ?x2 (drop n d) (drop n src))
                     (\<lambda>r2. case r2 of Inl e \<Rightarrow> Some (Inl e)
                            | Inr (x2, dst2) \<Rightarrow> Some (Inr (x2, take n d @ dst2))) = Some y"
            using 1(2) ne False by (simp add: t' xb)
          then obtain y2 where f: "f blk ?x2 (drop n d) (drop n src) = Some y2"
            and yy: "(case y2 of Inl e \<Rightarrow> Some (Inl e)
                     | Inr (x2, dst2) \<Rightarrow> Some (Inr (x2, take n d @ dst2))) = Some y"
            by (auto simp: bind_eq_Some_conv)
          from 1(1)[OF f] have "y2 \<noteq> Inl IVLength" by (simp add: no_iv_panic_def)
          then show ?thesis using yy y by (cases y2) auto
        qed
      qed
    qed
  qed
qed

lemma fill_out_exit:
  assumes bs: "1 \<le> BlockSize blk" and f: "fill_out blk remain out c = Some (r1, out3, c1)"
    and le: "remain \<le> length out"
  shows "\<not> int r1 \<le> int (length out3) - int (BlockSize blk)" and "length out3 = length out"
    and "r1 \<le> length out"
proof -
  let ?bs = "BlockSize blk" and ?k = "(length out - remain) div BlockSize blk"
  have e: "fill_steps blk ?k remain out c = (r1, out3, c1)"
    using fill_out_eq[OF bs, of remain out c] f by simp
  have r1: "r1 = remain + ?k * ?bs" using fill_steps_fst[of blk ?k remain out c] e by simp
  show l: "length out3 = length out" using fill_steps_length[of blk ?k remain out c] e by simp
  have s: "length out - remain = ?k * ?bs + (length out - remain) mod ?bs" by simp
  have m: "(length out - remain) mod ?bs < ?bs" using bs by simp
  show "r1 \<le> length out" using r1 s le by linarith
  show "\<not> int r1 \<le> int (length out3) - int ?bs" using r1 s m le l by linarith
qed

lemma refill_idem:
  assumes bs: "1 \<le> BlockSize blk" and r: "refill blk x = Some (Inr x1)"
  shows "refill blk x1 = Some (Inr x1)"
proof -
  let ?remain = "length (x_out x) - nat (x_outUsed x)"
  let ?out2 = "copy_bytes (x_out x) (drop (nat (x_outUsed x)) (x_out x)) @ x_spare x"
  from r obtain r1 out3 c1 where
    f: "fill_out blk ?remain ?out2 (x_ctr x) = Some (r1, out3, c1)"
    and x1: "x1 = \<lparr>x_ctr = c1, x_out = take r1 out3, x_spare = drop r1 out3, x_outUsed = 0\<rparr>"
    by (auto simp: refill_def Let_def split: if_splits option.splits prod.splits)
  have le: "?remain \<le> length ?out2" by simp
  note ex = fill_out_exit[OF bs f le]
  have r1: "r1 \<le> length out3" using ex(2,3) by simp
  have stop: "fill_out blk r1 out3 c1 = Some (r1, out3, c1)"
    using ex(1) by (subst fill_out.simps) simp
  show ?thesis
    using r1 by (simp add: refill_def Let_def x1 copy_bytes_same_length min_def stop)
qed

lemma XORKeyStream_refills_first:
  assumes bs: "1 \<le> BlockSize blk" and ne: "src \<noteq> []"
    and few: "int (length (x_out x)) - x_outUsed x < int (BlockSize blk)"
    and r: "refill blk x = Some (Inr x1)"
  shows "XORKeyStream blk x dst src = XORKeyStream blk x1 dst src"
proof -
  have c: "int (length (x_out x)) - int (BlockSize blk) \<le> x_outUsed x" using few by linarith
  have i: "refill blk x1 = Some (Inr x1)" using bs r by (rule refill_idem)
  have "(if int (length (x_out x1)) - int (BlockSize blk) \<le> x_outUsed x1
         then refill blk x1 else Some (Inr x1)) = Some (Inr x1)" by (simp add: i)
  then show ?thesis
    using ne c
    by (subst XORKeyStream.simps, subst (2) XORKeyStream.simps) (simp add: r)
qed

lemma ReadAt_p0_result:
  assumes wf: "wf_Block (p_b x)" and inv: "inv_p0 x" and off: "0 \<le> off"
  shows "\<exists>x2. ReadAt_p0 x p off
              = Some (Inr (x2, aligned_result (p_b x) (p_iv x) (p_r x) p off))
            \<and> inv_p0 x2 \<and> p_b x2 = p_b x \<and> p_iv x2 = p_iv x \<and> p_r x2 = p_r x"
proof -
  obtain dat n err where rd: "p_r x p off = (dat, n, err)" by (cases "p_r x p off")
  show ?thesis
  proof (cases err)
    case None
    from ReadAt_p0_ok[OF wf inv off rd[unfolded None]]
    show ?thesis by (simp add: aligned_result_def rd None)
  next
    case (Some e)
    from ReadAt_p0_source_error[OF inv off rd[unfolded Some]]
    show ?thesis by (simp add: aligned_result_def rd Some)
  qed
qed

section \<open>Panics, concrete runs and further facts about the readers\<close>

lemma initCTR_stream_block:
  assumes wf: "wf_Block (c_b c)" and bs: "1 \<le> BlockSize (c_b c)"
    and cb: "BlockSize (c_b c) \<le> c_bs c" and li: "length (c_iv c) = BlockSize (c_b c)"
    and bn: "0 \<le> bN"
  shows "\<exists>x. initCTR c bN 0 = Some (Inr x)
           \<and> (\<forall>j<BlockSize (c_b c).
                 stream_at (c_b c) x j
                   = Encrypt (c_b c) (initCTR_fill_ctr (length (c_iv c)) bN (c_iv c)) ! j)"
proof -
  have o: "(0::int) \<le> 0" "0 < int (BlockSize (c_b c))" using bs by simp_all
  from initCTR_wf[OF wf bs cb li o bn] obtain x where
    i: "initCTR c bN 0 = Some (Inr x)"
    and s: "\<And>i. stream_at (c_b c) x i
               = ks_at (c_b c) (c_iv c) (nat bN * BlockSize (c_b c) + nat 0 + i)" by blast
  have "\<forall>j<BlockSize (c_b c). stream_at (c_b c) x j
          = Encrypt (c_b c) (initCTR_fill_ctr (length (c_iv c)) bN (c_iv c)) ! j"
    using bs by (simp add: s ks_at_def initCTR_fill_ctr_eq_funpow[OF bn])
  with i show ?thesis by blast
qed

lemma setCTR_stream_block:
  assumes wf: "wf_Block (p_b x)" and inv: "inv_p0 x"
  shows "\<exists>x1. setCTR x bN = Some x1
           \<and> (\<forall>j<BlockSize (p_b x).
                 stream_at (p_b x) (p_x x1) j
                   = Encrypt (p_b x) ((increment ^^ nat bN) (p_iv x)) ! j)"
proof -
  have bs: "1 \<le> BlockSize (p_b x)" using inv by (simp add: inv_p0_def)
  from setCTR_wf[OF wf inv, of bN] obtain x1 where
    i: "setCTR x bN = Some x1"
    and s: "\<And>i. stream_at (p_b x) (p_x x1) i
               = ks_at (p_b x) (p_iv x) (nat bN * BlockSize (p_b x) + i)" by blast
  have "\<forall>j<BlockSize (p_b x). stream_at (p_b x) (p_x x1) j
          = Encrypt (p_b x) ((increment ^^ nat bN) (p_iv x)) ! j"
    using bs by (simp add: s ks_at_def)
  with i show ?thesis by blast
qed

lemma demo_ctr_new:
  "NewCTRReaderAt (xor_Block 4 90) demo_iv (slice_source [1, 2, 3, 4, 5]) = Inr demo_ctr"
  by (simp add: NewCTRReaderAt_Inr demo_ctr_def demo_iv_def streamBufferSize_def)

lemma demo_ctr_p0_new:
  "NewCTRReaderAt_p0 (xor_Block 4 90) demo_iv (slice_source [1, 2, 3, 4, 5]) = Inr demo_ctr_p0"
  by (simp add: NewCTRReaderAt_p0_Inr demo_ctr_p0_def demo_iv_def streamBufferSize_def)

lemma demo_ctr_p0_inv: "inv_p0 demo_ctr_p0"
  by (simp add: inv_p0_def demo_ctr_p0_def demo_iv_def cap_def)

lemma demo_short_read:
  "slice_source [1, 2, 3, 4, 5] [0, 0, 0, 0, 0, 0, 0, 0] 2 = ([3, 4, 5], 3, Some EOF)"
  by (simp add: slice_source_def Let_def)

lemma demo_past_end: "slice_source [1, 2, 3, 4, 5] [] 7 = ([], 0, Some EOF)"
  by (simp add: slice_source_def)

lemma demo_inside: "slice_source [1, 2, 3, 4, 5] [0, 0] 1 = ([2, 3], 2, None)"
  by (simp add: slice_source_def Let_def)

lemma demo_empty_inside: "slice_source [1, 2, 3, 4, 5] [] 3 = ([], 0, None)"
  by (simp add: slice_source_def Let_def)

lemma initCTR_panic: "initCTR c bN bOff = Some (Inl e) \<Longrightarrow> e = SliceBounds"
  by (auto simp: initCTR_def Let_def split: option.splits sum.splits if_splits
           dest: refill_panic)

lemma ReadAt_no_iv_panic: "ReadAt c p off \<noteq> Some (Inl IVLength)"
proof
  assume a: "ReadAt c p off = Some (Inl IVLength)"
  then have nz: "BlockSize (c_b c) \<noteq> 0" by (auto simp: ReadAt_def split: if_splits)
  let ?bOff = "off smod int (BlockSize (c_b c))"
  let ?bN = "(off - ?bOff) sdiv int (BlockSize (c_b c))"
  show False
  proof (cases "initCTR c ?bN ?bOff")
    case None then show ?thesis using a nz by (simp add: ReadAt_def Let_def)
  next
    case (Some r)
    show ?thesis
    proof (cases r)
      case (Inl e)
      then have "e = SliceBounds" using Some initCTR_panic by blast
      then show ?thesis using a nz Some Inl by (simp add: ReadAt_def Let_def)
    next
      case (Inr st)
      obtain dat n err where rd: "c_r c p off = (dat, n, err)" by (cases "c_r c p off")
      show ?thesis
      proof (cases err)
        case (Some e') then show ?thesis using a nz \<open>initCTR c ?bN ?bOff = Some r\<close> Inr rd
          by (simp add: ReadAt_def Let_def)
      next
        case None
        let ?p1 = "copy_bytes p dat"
        from a nz \<open>initCTR c ?bN ?bOff = Some r\<close> Inr rd None
        have "XORKeyStream (c_b c) st ?p1 ?p1 = Some (Inl IVLength)"
          by (auto simp: ReadAt_def Let_def split: option.splits sum.splits prod.splits)
        from XORKeyStream_no_iv_panic[OF this] show False by (simp add: no_iv_panic_def)
      qed
    qed
  qed
qed

lemma ReadAt_error_from_source:
  assumes "ReadAt c p off = Some (Inr (p1, n, Some e))"
  shows "snd (snd (c_r c p off)) = Some e"
  using assms
  by (auto simp: ReadAt_def Let_def split: if_splits option.splits sum.splits prod.splits)

lemma setCTR_fields: "setCTR x bN = Some x1 \<Longrightarrow> p_r x1 = p_r x \<and> p_b x1 = p_b x"
  by (auto simp: setCTR_def Let_def split: option.splits prod.splits)

lemma ReadAt_p0_no_iv_panic: "ReadAt_p0 x p off \<noteq> Some (Inl IVLength)"
proof
  assume a: "ReadAt_p0 x p off = Some (Inl IVLength)"
  then have nz: "BlockSize (p_b x) \<noteq> 0" by (auto simp: ReadAt_p0_def split: if_splits)
  let ?bOff = "off smod int (BlockSize (p_b x))"
  let ?bN = "(off - ?bOff) sdiv int (BlockSize (p_b x))"
  show False
  proof (cases "setCTR x ?bN")
    case None then show ?thesis using a nz by (simp add: ReadAt_p0_def Let_def)
  next
    case (Some x1)
    obtain dat n err where rd: "p_r x1 p off = (dat, n, err)" by (cases "p_r x1 p off")
    show ?thesis
    proof (cases err)
      case (Some e') then show ?thesis using a nz \<open>setCTR x ?bN = Some x1\<close> rd
        by (simp add: ReadAt_p0_def Let_def)
    next
      case None
      let ?p1 = "copy_bytes p dat"
      from a nz \<open>setCTR x ?bN = Some x1\<close> rd None
      have "XORKeyStream (p_b x1) (p_x x1) ?p1 ?p1 = Some (Inl IVLength)"
        by (auto simp: ReadAt_p0_def Let_def split: option.splits sum.splits prod.splits)
      from XORKeyStream_no_iv_panic[OF this] show False by (simp add: no_iv_panic_def)
    qed
  qed
qed

lemma ReadAt_p0_error_from_source:
  assumes "ReadAt_p0 x p off = Some (Inr (x1, p1, n, Some e))"
  shows "snd (snd (p_r x p off)) = Some e"
  using assms
  by (auto simp: ReadAt_p0_def Let_def
           split: if_splits option.splits sum.splits prod.splits dest!: setCTR_fields)

lemma demo_state_ok: "state_ok (xor_Block 2 90) demo_state"
  by (simp add: state_ok_def demo_state_def)

lemma demo_state_cursor: "cursor_ok demo_state"
  by (simp add: cursor_ok_def demo_state_def)

lemma increment_demo: "increment [0, 255] = [1, 0]" "increment [1, 0] = [1, 1]"
  "increment [1, 1] = [1, 2]"
  by (simp_all add: increment_def Let_def byte_256)

lemma refill_outUsed: "refill blk x = Some (Inr x1) \<Longrightarrow> x_outUsed x1 = 0"
  by (auto simp: refill_def Let_def split: if_splits option.splits prod.splits)

lemma initCTR_cursor: "initCTR c bN bOff = Some (Inr x) \<Longrightarrow> cursor_ok x"
  by (auto simp: initCTR_def Let_def cursor_ok_def split: option.splits sum.splits if_splits
           dest!: refill_outUsed)

lemma setCTR_cursor: "setCTR xp bN = Some xp1 \<Longrightarrow> cursor_ok (p_x xp1)"
  by (auto simp: setCTR_def Let_def cursor_ok_def split: option.splits prod.splits)

lemma refill_Some_cursor:
  assumes "1 \<le> BlockSize blk" and "cursor_ok x"
  shows "\<exists>x1. refill blk x = Some (Inr x1) \<and> cursor_ok x1"
proof -
  from refill_general[OF assms(1), of x] assms(2)
  obtain x1 where r: "refill blk x = Some (Inr x1)" by (auto simp: cursor_ok_def)
  then show ?thesis using refill_cursor by blast
qed

lemma wide_ctr_new:
  "NewCTRReaderAt (xor_Block 512 90) (replicate 512 0) wide_src = Inr wide_ctr"
  by (simp add: NewCTRReaderAt_Inr wide_ctr_def streamBufferSize_def)

lemma wide_src_read: "wide_src (replicate 1000 0) 1
    = (take 1000 (drop 1 (std_ctr_encrypt (xor_Block 512 90) (replicate 512 0) (replicate 2000 7))),
       1000, None)"
  unfolding wide_src_def
  using slice_source_inside[of 1 "replicate 1000 0"
          "std_ctr_encrypt (xor_Block 512 90) (replicate 512 0) (replicate 2000 7)"]
  by simp

lemma wide_ReadAt_diverges: "ReadAt wide_ctr (replicate 1000 0) 1 = None"
  by (rule ReadAt_diverges[where dat = "take 1000 (drop 1 (std_ctr_encrypt (xor_Block 512 90)
                (replicate 512 0) (replicate 2000 7)))" and n = 1000])
     (simp_all add: wide_ctr_def wide_src_read)

lemma test_ctr_p0_new:
  "NewCTRReaderAt_p0 (xor_Block 16 90) test_iv test_src = Inr test_ctr_p0"
  by (simp add: NewCTRReaderAt_p0_Inr test_ctr_p0_def test_iv_def streamBufferSize_def)

lemma test_ctr_p0_inv: "inv_p0 test_ctr_p0"
  by (simp add: inv_p0_def test_ctr_p0_def test_iv_def cap_def)

lemma test_ks: "std_keystream (xor_Block 16 90) test_iv 0 = 90"
  "std_keystream (xor_Block 16 90) test_iv (Suc 0) = 91"
  by (simp_all add: ks_at_std[symmetric] ks_at_def test_iv_def)

lemma test_src_read: "test_src [0] 1 = ([92], 1, None)"
proof -
  let ?ct = "std_ctr_encrypt (xor_Block 16 90) test_iv (replicate 32 7)"
  have "test_src [0] 1 = (take (length [0::byte]) (drop (nat 1) ?ct), int (length [0::byte]), None)"
    unfolding test_src_def by (rule slice_source_inside) simp_all
  moreover have "take 1 (drop 1 ?ct) = [?ct ! 1]"
    by (simp add: take_Suc_conv_app_nth)
  moreover have "?ct ! 1 = 92"
    by (simp add: std_ctr_encrypt_def test_ks)
  ultimately show ?thesis by simp
qed

lemma test_ReadAt_p0: "outcome_p0 (ReadAt_p0 test_ctr_p0 [0] 1) = Some (Inr ([6], 1, None))"
proof -
  have wf: "wf_Block (p_b test_ctr_p0)" by (simp add: test_ctr_p0_def)
  have rd: "p_r test_ctr_p0 [0] 1 = ([92], 1, None)" by (simp add: test_ctr_p0_def test_src_read)
  from ReadAt_p0_ok[OF wf test_ctr_p0_inv _ rd] obtain x2 where
    "ReadAt_p0 test_ctr_p0 [0] 1
       = Some (Inr (x2, map (\<lambda>i. copy_bytes [0] [92] ! i XOR
                               ks_at (p_b test_ctr_p0) (p_iv test_ctr_p0)
                                 (nat (1 div int (BlockSize (p_b test_ctr_p0)))
                                    * BlockSize (p_b test_ctr_p0) + i))
                        [0..<length [0::byte]], 1, None))" by auto
  then show ?thesis
    by (simp add: outcome_p0_def test_ctr_p0_def copy_bytes_def ks_at_std test_ks)
qed

lemma wide_initCTR: "initCTR wide_ctr 0 1 = Some (Inr wide_state)"
proof -
  let ?blk = "xor_Block 512 90"
  let ?x1 = "\<lparr>x_ctr = replicate 512 0, x_out = [], x_spare = replicate 512 0, x_outUsed = 0\<rparr>"
  have ok: "state_ok ?blk ?x1" by (simp add: state_ok_def)
  have p: "pending ?x1 = []" by (simp add: pending_def)
  have k: "refill_blocks ?blk ?x1 = Suc 0" by (simp add: refill_blocks_def cap_def p)
  from refill_wf[of ?blk ?x1] ok obtain x2 where
    r: "refill ?blk ?x1 = Some (Inr x2)"
    and c: "x_ctr x2 = increment (replicate 512 0)"
    and o: "x_out x2 = replicate 512 90"
    and u: "x_outUsed x2 = 0" and cc: "cap x2 = 512"
    by (auto simp: k p cap_def)
  have "length (x_spare x2) = 0" using cc o by (simp add: cap_def)
  then have s: "x_spare x2 = []" by simp
  have x2: "x2 = \<lparr>x_ctr = increment (replicate 512 0), x_out = replicate 512 90, x_spare = [],
                  x_outUsed = 0\<rparr>"
    using c o u s by (cases x2) simp
  have f: "initCTR_fill_ctr (length (replicate 512 (0::byte))) 0 (replicate 512 0) = replicate 512 0"
    using initCTR_fill_ctr_eq_funpow[of 0 "replicate 512 0"] by simp
  have d: "drop (Suc 0) (replicate 512 (90::byte)) = replicate 511 90" by simp
  show ?thesis
    unfolding initCTR_refill_state
    by (simp add: wide_ctr_def f[simplified] r x2 wide_state_def d)
qed

lemma wide_refill_empty:
  "refill (xor_Block 512 90) (wide_state\<lparr>x_outUsed := 511\<rparr>)
     = Some (Inr \<lparr>x_ctr = increment (replicate 512 0), x_out = [], x_spare = replicate 511 90,
                  x_outUsed = 0\<rparr>)"
proof -
  have f: "fill_out (xor_Block 512 90) 0 (replicate 511 90) (increment (replicate 512 0))
         = Some (0, replicate 511 90, increment (replicate 512 0))"
    by (subst fill_out.simps) simp
  show ?thesis by (simp add: refill_def wide_state_def Let_def copy_bytes_def f)
qed

lemma wide_XORKeyStream_diverges:
  "XORKeyStream (xor_Block 512 90) wide_state (replicate 1000 0) (replicate 1000 0) = None"
  by (rule XORKeyStream_runs_dry) (simp_all add: wide_state_def cap_def)

lemma XORKeyStream_returns:
  assumes wf: "wf_Block blk" and bs: "1 \<le> BlockSize blk" and ok: "state_ok blk x"
    and cp: "BlockSize blk \<le> cap x" and ld: "length src \<le> length dst"
  shows "\<exists>x1 d. XORKeyStream blk x dst src = Some (Inr (x1, d))"
  using XORKeyStream_correct[OF wf bs ok cp ld] by blast

lemma demo_error_read:
  "ReadAt demo_ctr [0, 0, 0, 0, 0, 0, 0, 0] 2 = Some (Inr ([3, 4, 5, 0, 0, 0, 0, 0], 3, Some EOF))"
proof -
  have "ReadAt demo_ctr [0, 0, 0, 0, 0, 0, 0, 0] 2
      = Some (Inr (copy_bytes [0, 0, 0, 0, 0, 0, 0, 0] [3, 4, 5], 3, Some EOF))"
    by (rule ReadAt_source_error) (simp_all add: demo_ctr_def demo_short_read)
  then show ?thesis by (simp add: copy_bytes_def)
qed

lemma demo_error_read_p0:
  "\<exists>x1. ReadAt_p0 demo_ctr_p0 [0, 0, 0, 0, 0, 0, 0, 0] 2
          = Some (Inr (x1, [3, 4, 5, 0, 0, 0, 0, 0], 3, Some EOF))"
proof -
  have rd: "p_r demo_ctr_p0 [0, 0, 0, 0, 0, 0, 0, 0] 2 = ([3, 4, 5], 3, Some EOF)"
    by (simp add: demo_ctr_p0_def demo_short_read)
  from ReadAt_p0_source_error[OF demo_ctr_p0_inv _ rd]
  show ?thesis by (auto simp: copy_bytes_def)
qed

section \<open>Claims\<close>

text \<open>
  C1. Round trip: a plaintext encrypted with standard counter mode and read back through
  \<open>ReadAt\<close> comes back as the plaintext, for every cipher, offset and length inside the
  plaintext. Both revisions break this. In ctr.go, \<open>initCTR\<close> re-slices the buffer by the
  offset inside the block, which lowers its capacity; for a cipher of block size 512 and the
  offset 1 no block fits any more and a read of 1000 bytes never returns. In part_000 the
  offset inside the block is computed and not used: the byte at offset 1 of a plaintext of
  sevens comes back as 6. (\<open>ReadAt_roundtrip\<close> above is the round trip of ctr.go for block
  sizes up to 256.)
\<close>

theorem roundtrip_fails:
  "NewCTRReaderAt (xor_Block 512 90) (replicate 512 0) wide_src = Inr wide_ctr
   \<and> ReadAt wide_ctr (replicate 1000 0) 1 = None
   \<and> NewCTRReaderAt_p0 (xor_Block 16 90) test_iv test_src = Inr test_ctr_p0
   \<and> outcome_p0 (ReadAt_p0 test_ctr_p0 [0] 1) = Some (Inr ([6], 1, None))
   \<and> take 1 (drop 1 (replicate 32 (7::byte))) = [7]"
  by (simp add: wide_ctr_new wide_ReadAt_diverges test_ctr_p0_new test_ReadAt_p0
        take_Suc_conv_app_nth)

text \<open>
  C2. For a block index \<open>bN \<ge> 0\<close> and an initial counter of at least one byte, the direct
  addition of \<open>initCTR\<close> and the repeated increment of \<open>setCTR\<close> both give the counter of
  the same length whose big-endian value is the initial value plus \<open>bN\<close> modulo
  \<open>2 ^ (8 * length)\<close>; and the first block of keystream that the state built by \<open>initCTR\<close>,
  respectively by \<open>setCTR\<close>, delivers is the encryption of that counter.
\<close>

theorem counter_block_derivation:
  assumes bn: "0 \<le> bN" and B: "1 \<le> length iv"
  shows "length (initCTR_fill_ctr (length iv) bN iv) = length iv
       \<and> be_val (initCTR_fill_ctr (length iv) bN iv)
           = (be_val iv + nat bN) mod 2 ^ (8 * length iv)
       \<and> length ((increment ^^ nat bN) iv) = length iv
       \<and> be_val ((increment ^^ nat bN) iv) = (be_val iv + nat bN) mod 2 ^ (8 * length iv)
       \<and> (wf_Block blk \<and> NewCTRReaderAt blk iv rd = Inr c \<longrightarrow>
            (\<exists>x. initCTR c bN 0 = Some (Inr x)
               \<and> (\<forall>j<BlockSize blk.
                    stream_at blk x j = Encrypt blk (initCTR_fill_ctr (length iv) bN iv) ! j)))
       \<and> (wf_Block blk \<and> inv_p0 xp \<and> p_b xp = blk \<and> p_iv xp = iv \<longrightarrow>
            (\<exists>x1. setCTR xp bN = Some x1
               \<and> (\<forall>j<BlockSize blk.
                    stream_at blk (p_x x1) j = Encrypt blk ((increment ^^ nat bN) iv) ! j)))"
proof -
  have p: "(256::nat) ^ length iv = 2 ^ (8 * length iv)"
    by (simp add: power_mult)
  have a: "be_val (initCTR_fill_ctr (length iv) bN iv) = (be_val iv + nat bN) mod 2 ^ (8 * length iv)"
    using initCTR_fill_ctr_val[of "length iv" iv bN] bn by (simp add: p)
  have b: "be_val ((increment ^^ nat bN) iv) = (be_val iv + nat bN) mod 2 ^ (8 * length iv)"
    using increment_funpow_val[of "nat bN" iv] by (simp add: p)
  have c: "wf_Block blk \<and> NewCTRReaderAt blk iv rd = Inr c \<longrightarrow>
            (\<exists>x. initCTR c bN 0 = Some (Inr x)
               \<and> (\<forall>j<BlockSize blk.
                    stream_at blk x j = Encrypt blk (initCTR_fill_ctr (length iv) bN iv) ! j))"
  proof
    assume h: "wf_Block blk \<and> NewCTRReaderAt blk iv rd = Inr c"
    from NewCTRReaderAt_props[of blk iv rd c] h
    have f: "c_b c = blk" "c_iv c = iv" "length iv = BlockSize blk" "BlockSize blk \<le> c_bs c"
      by simp_all
    have "1 \<le> BlockSize (c_b c)" using B f by simp
    from initCTR_stream_block[OF _ this _ _ bn] h f
    show "\<exists>x. initCTR c bN 0 = Some (Inr x)
               \<and> (\<forall>j<BlockSize blk.
                    stream_at blk x j = Encrypt blk (initCTR_fill_ctr (length iv) bN iv) ! j)"
      by simp
  qed
  have d: "wf_Block blk \<and> inv_p0 xp \<and> p_b xp = blk \<and> p_iv xp = iv \<longrightarrow>
            (\<exists>x1. setCTR xp bN = Some x1
               \<and> (\<forall>j<BlockSize blk.
                    stream_at blk (p_x x1) j = Encrypt blk ((increment ^^ nat bN) iv) ! j))"
    using setCTR_stream_block[of xp bN] by auto
  show ?thesis using a b c d by simp
qed

text \<open>
  C2, at the counter 00 00 FF FF and the block index 258: the sum is 00 01 01 01.
\<close>

theorem counter_block_derivation_witness:
  "(0::int) \<le> 258 \<and> 1 \<le> length demo_iv \<and> wf_Block (xor_Block 4 90)
   \<and> NewCTRReaderAt (xor_Block 4 90) demo_iv (slice_source [1, 2, 3, 4, 5]) = Inr demo_ctr
   \<and> inv_p0 demo_ctr_p0
   \<and> initCTR_fill_ctr (length demo_iv) 258 demo_iv = [0, 1, 1, 1]
   \<and> be_val (initCTR_fill_ctr (length demo_iv) 258 demo_iv)
       = (be_val demo_iv + nat 258) mod 2 ^ (8 * length demo_iv)
   \<and> be_val ((increment ^^ nat 258) demo_iv)
       = (be_val demo_iv + nat 258) mod 2 ^ (8 * length demo_iv)
   \<and> (\<exists>x. initCTR demo_ctr 258 0 = Some (Inr x)
          \<and> (\<forall>j<BlockSize (xor_Block 4 90).
                stream_at (xor_Block 4 90) x j
                  = Encrypt (xor_Block 4 90) (initCTR_fill_ctr (length demo_iv) 258 demo_iv) ! j))
   \<and> (\<exists>x1. setCTR demo_ctr_p0 258 = Some x1
          \<and> (\<forall>j<BlockSize (xor_Block 4 90).
                stream_at (xor_Block 4 90) (p_x x1) j
                  = Encrypt (xor_Block 4 90) ((increment ^^ nat 258) demo_iv) ! j))"
proof -
  have h1: "(0::int) \<le> 258" by simp
  have h2: "1 \<le> length demo_iv" by (simp add: demo_iv_def)
  have wf: "wf_Block (xor_Block 4 90)" by simp
  have pb: "p_b demo_ctr_p0 = xor_Block 4 90" "p_iv demo_ctr_p0 = demo_iv"
    by (simp_all add: demo_ctr_p0_def)
  have v: "initCTR_fill_ctr (length demo_iv) 258 demo_iv = [0, 1, 1, 1]"
    unfolding demo_iv_def by code_simp
  note t = counter_block_derivation[OF h1 h2, of "xor_Block 4 90" "slice_source [1, 2, 3, 4, 5]"
             demo_ctr demo_ctr_p0]
  show ?thesis using t h1 h2 wf demo_ctr_new demo_ctr_p0_inv pb v by blast
qed




text \<open>
  C4. The increment of the engine is a big-endian increment: it keeps the length, adds one
  to the value modulo \<open>2 ^ (8 * length)\<close>, turns the trailing \<open>0xFF\<close> bytes into
  zeros and stops at the first byte that does not wrap; the counter of all \<open>0xFF\<close>
  becomes the counter of all zeros. The result is a counter, never an error.
\<close>

theorem increment_big_endian:
  "length (increment c) = length c
   \<and> be_val (increment c) = (be_val c + 1) mod 2 ^ (8 * length c)
   \<and> increment (replicate n 255) = replicate n 0
   \<and> (b \<noteq> 255 \<longrightarrow> increment (pre @ b # replicate k 255) = pre @ (b + 1) # replicate k 0)"
proof -
  have "(256::nat) ^ length c = 2 ^ (8 * length c)"
    by (simp add: power_mult)
  then have "be_val (increment c) = (be_val c + 1) mod 2 ^ (8 * length c)"
    using increment_val[of c] by simp
  then show ?thesis
    by (simp add: increment_all_ff increment_carry)
qed

text \<open>
  C4, at the counters 12 FE FF FF and FF FF FF FF.
\<close>

theorem increment_big_endian_witness:
  "(254::byte) \<noteq> 255
   \<and> increment [18, 254, 255, 255] = [18, 255, 0, 0]
   \<and> increment [255, 255, 255, 255] = [0, 0, 0, 0]"
  using increment_big_endian [of "[18, 254, 255, 255]" "Suc (Suc (Suc (Suc 0)))" 254 "[18]" "Suc (Suc 0)"]
  by simp

text \<open>
  C5. The result of a read does not depend on the reads made before it. In part_000,
  from a new reader, reading at \<open>o2\<close> and then at \<open>o1\<close> gives the same two results as
  reading at \<open>o1\<close> and then at \<open>o2\<close>, and from every state that satisfies the invariant of
  the reader a read gives the result of the new reader. In ctr.go a read only reads the
  reader, which is determined by the arguments of the constructor.
\<close>

theorem read_order_independent:
  assumes wf: "wf_Block blk" and bs: "1 \<le> BlockSize blk" and o1: "0 \<le> o1" and o2: "0 \<le> o2"
  shows "(NewCTRReaderAt_p0 blk iv rd = Inr x0 \<longrightarrow>
            (\<exists>xa xb xc xd.
               ReadAt_p0 x0 p2 o2 = Some (Inr (xa, aligned_result blk iv rd p2 o2))
             \<and> ReadAt_p0 xa p1 o1 = Some (Inr (xb, aligned_result blk iv rd p1 o1))
             \<and> ReadAt_p0 x0 p1 o1 = Some (Inr (xc, aligned_result blk iv rd p1 o1))
             \<and> ReadAt_p0 xc p2 o2 = Some (Inr (xd, aligned_result blk iv rd p2 o2))))
       \<and> (inv_p0 x \<and> p_b x = blk \<and> p_iv x = iv \<and> p_r x = rd \<longrightarrow>
            outcome_p0 (ReadAt_p0 x p1 o1) = Some (Inr (aligned_result blk iv rd p1 o1)))
       \<and> (NewCTRReaderAt blk iv rd = Inr c \<and> NewCTRReaderAt blk iv rd = Inr c' \<longrightarrow>
            ReadAt c p1 o1 = ReadAt c' p1 o1 \<and> ReadAt c p2 o2 = ReadAt c' p2 o2)"
proof -
  have a: "NewCTRReaderAt_p0 blk iv rd = Inr x0 \<longrightarrow>
            (\<exists>xa xb xc xd.
               ReadAt_p0 x0 p2 o2 = Some (Inr (xa, aligned_result blk iv rd p2 o2))
             \<and> ReadAt_p0 xa p1 o1 = Some (Inr (xb, aligned_result blk iv rd p1 o1))
             \<and> ReadAt_p0 x0 p1 o1 = Some (Inr (xc, aligned_result blk iv rd p1 o1))
             \<and> ReadAt_p0 xc p2 o2 = Some (Inr (xd, aligned_result blk iv rd p2 o2)))"
  proof
    assume n: "NewCTRReaderAt_p0 blk iv rd = Inr x0"
    from NewCTRReaderAt_p0_inv[OF n bs]
    have i0: "inv_p0 x0" and f0: "p_b x0 = blk" "p_iv x0 = iv" "p_r x0 = rd" by simp_all
    have w0: "wf_Block (p_b x0)" using wf f0 by simp
    from ReadAt_p0_result[OF w0 i0 o2, of p2] f0 obtain xa where
      ra: "ReadAt_p0 x0 p2 o2 = Some (Inr (xa, aligned_result blk iv rd p2 o2))"
      and ia: "inv_p0 xa" and fa: "p_b xa = blk" "p_iv xa = iv" "p_r xa = rd" by auto
    have wa: "wf_Block (p_b xa)" using wf fa by simp
    from ReadAt_p0_result[OF wa ia o1, of p1] fa obtain xb where
      rb: "ReadAt_p0 xa p1 o1 = Some (Inr (xb, aligned_result blk iv rd p1 o1))" by auto
    from ReadAt_p0_result[OF w0 i0 o1, of p1] f0 obtain xc where
      rc: "ReadAt_p0 x0 p1 o1 = Some (Inr (xc, aligned_result blk iv rd p1 o1))"
      and ic: "inv_p0 xc" and fc: "p_b xc = blk" "p_iv xc = iv" "p_r xc = rd" by auto
    have wc: "wf_Block (p_b xc)" using wf fc by simp
    from ReadAt_p0_result[OF wc ic o2, of p2] fc obtain xd where
      rd': "ReadAt_p0 xc p2 o2 = Some (Inr (xd, aligned_result blk iv rd p2 o2))" by auto
    show "\<exists>xa xb xc xd.
               ReadAt_p0 x0 p2 o2 = Some (Inr (xa, aligned_result blk iv rd p2 o2))
             \<and> ReadAt_p0 xa p1 o1 = Some (Inr (xb, aligned_result blk iv rd p1 o1))
             \<and> ReadAt_p0 x0 p1 o1 = Some (Inr (xc, aligned_result blk iv rd p1 o1))
             \<and> ReadAt_p0 xc p2 o2 = Some (Inr (xd, aligned_result blk iv rd p2 o2))"
      using ra rb rc rd' by blast
  qed
  have b: "inv_p0 x \<and> p_b x = blk \<and> p_iv x = iv \<and> p_r x = rd \<longrightarrow>
            outcome_p0 (ReadAt_p0 x p1 o1) = Some (Inr (aligned_result blk iv rd p1 o1))"
  proof
    assume h: "inv_p0 x \<and> p_b x = blk \<and> p_iv x = iv \<and> p_r x = rd"
    have w: "wf_Block (p_b x)" using wf h by simp
    from ReadAt_p0_result[OF w _ o1, of p1] h obtain x2 where
      "ReadAt_p0 x p1 o1 = Some (Inr (x2, aligned_result blk iv rd p1 o1))" by auto
    then show "outcome_p0 (ReadAt_p0 x p1 o1) = Some (Inr (aligned_result blk iv rd p1 o1))"
      by (simp add: outcome_p0_def)
  qed
  have c: "NewCTRReaderAt blk iv rd = Inr c \<and> NewCTRReaderAt blk iv rd = Inr c' \<longrightarrow>
            ReadAt c p1 o1 = ReadAt c' p1 o1 \<and> ReadAt c p2 o2 = ReadAt c' p2 o2"
    by auto
  show ?thesis using a b c by blast
qed

text \<open>
  C5, on two reads of a source of five bytes.
\<close>

theorem read_order_independent_witness:
  "wf_Block (xor_Block 4 90) \<and> 1 \<le> BlockSize (xor_Block 4 90) \<and> (0::int) \<le> 1 \<and> (0::int) \<le> 2
   \<and> NewCTRReaderAt_p0 (xor_Block 4 90) demo_iv (slice_source [1, 2, 3, 4, 5]) = Inr demo_ctr_p0
   \<and> inv_p0 demo_ctr_p0
   \<and> NewCTRReaderAt (xor_Block 4 90) demo_iv (slice_source [1, 2, 3, 4, 5]) = Inr demo_ctr
   \<and> (\<exists>xa xb xc xd.
         ReadAt_p0 demo_ctr_p0 [0, 0, 0] 2
           = Some (Inr (xa, aligned_result (xor_Block 4 90) demo_iv (slice_source [1, 2, 3, 4, 5])
                              [0, 0, 0] 2))
       \<and> ReadAt_p0 xa [0, 0] 1
           = Some (Inr (xb, aligned_result (xor_Block 4 90) demo_iv (slice_source [1, 2, 3, 4, 5])
                              [0, 0] 1))
       \<and> ReadAt_p0 demo_ctr_p0 [0, 0] 1
           = Some (Inr (xc, aligned_result (xor_Block 4 90) demo_iv (slice_source [1, 2, 3, 4, 5])
                              [0, 0] 1))
       \<and> ReadAt_p0 xc [0, 0, 0] 2
           = Some (Inr (xd, aligned_result (xor_Block 4 90) demo_iv (slice_source [1, 2, 3, 4, 5])
                              [0, 0, 0] 2)))
   \<and> outcome_p0 (ReadAt_p0 demo_ctr_p0 [0, 0] 1)
       = Some (Inr (aligned_result (xor_Block 4 90) demo_iv (slice_source [1, 2, 3, 4, 5]) [0, 0] 1))"
proof -
  have wf: "wf_Block (xor_Block 4 90)" and bs: "1 \<le> BlockSize (xor_Block 4 90)" by simp_all
  have o1: "(0::int) \<le> 1" and o2: "(0::int) \<le> 2" by simp_all
  have pb: "p_b demo_ctr_p0 = xor_Block 4 90" "p_iv demo_ctr_p0 = demo_iv"
    "p_r demo_ctr_p0 = slice_source [1, 2, 3, 4, 5]" by (simp_all add: demo_ctr_p0_def)
  note t = read_order_independent[OF wf bs o1 o2, of demo_iv "slice_source [1, 2, 3, 4, 5]"
             demo_ctr_p0 "[0, 0, 0]" "[0, 0]" demo_ctr_p0 demo_ctr demo_ctr]
  show ?thesis using t wf bs demo_ctr_p0_new demo_ctr_p0_inv demo_ctr_new pb by simp
qed

text \<open>
  C6. Each constructor panics exactly when the length of the initial counter differs from
  the block size, and returns a reader exactly when they are equal. No read panics with that
  message, and an error returned by a read is the error that the source returned.
\<close>

theorem construction_fails_iff_length_mismatch:
  "(NewCTRReaderAt blk iv rd = Inl IVLength \<longleftrightarrow> length iv \<noteq> BlockSize blk)
   \<and> ((\<exists>c. NewCTRReaderAt blk iv rd = Inr c) \<longleftrightarrow> length iv = BlockSize blk)
   \<and> (NewCTRReaderAt_p0 blk iv rd = Inl IVLength \<longleftrightarrow> length iv \<noteq> BlockSize blk)
   \<and> ((\<exists>x. NewCTRReaderAt_p0 blk iv rd = Inr x) \<longleftrightarrow> length iv = BlockSize blk)
   \<and> ReadAt c p off \<noteq> Some (Inl IVLength)
   \<and> (ReadAt c p off = Some (Inr (p1, n, Some e)) \<longrightarrow> snd (snd (c_r c p off)) = Some e)
   \<and> ReadAt_p0 x p off \<noteq> Some (Inl IVLength)
   \<and> (ReadAt_p0 x p off = Some (Inr (x1, p1, n, Some e)) \<longrightarrow> snd (snd (p_r x p off)) = Some e)"
proof -
  have a: "NewCTRReaderAt blk iv rd = Inl IVLength \<longleftrightarrow> length iv \<noteq> BlockSize blk"
    and b: "(\<exists>c. NewCTRReaderAt blk iv rd = Inr c) \<longleftrightarrow> length iv = BlockSize blk"
    by (auto simp: NewCTRReaderAt_def Let_def)
  have c: "NewCTRReaderAt_p0 blk iv rd = Inl IVLength \<longleftrightarrow> length iv \<noteq> BlockSize blk"
    and d: "(\<exists>x. NewCTRReaderAt_p0 blk iv rd = Inr x) \<longleftrightarrow> length iv = BlockSize blk"
    by (auto simp: NewCTRReaderAt_p0_def Let_def)
  show ?thesis
    using a b c d ReadAt_no_iv_panic[of c p off] ReadAt_error_from_source[of c p off p1 n e]
      ReadAt_p0_no_iv_panic[of x p off] ReadAt_p0_error_from_source[of x p off x1 p1 n e]
    by blast
qed

text \<open>
  C6, on a counter of two bytes and on a counter of four bytes for a cipher of block size 4.
\<close>

theorem construction_fails_iff_length_mismatch_witness:
  "length [0, 0 :: byte] \<noteq> BlockSize (xor_Block 4 90)
   \<and> NewCTRReaderAt (xor_Block 4 90) [0, 0] (slice_source [1, 2, 3, 4, 5]) = Inl IVLength
   \<and> NewCTRReaderAt_p0 (xor_Block 4 90) [0, 0] (slice_source [1, 2, 3, 4, 5]) = Inl IVLength
   \<and> length demo_iv = BlockSize (xor_Block 4 90)
   \<and> (\<exists>c. NewCTRReaderAt (xor_Block 4 90) demo_iv (slice_source [1, 2, 3, 4, 5]) = Inr c)
   \<and> (\<exists>x. NewCTRReaderAt_p0 (xor_Block 4 90) demo_iv (slice_source [1, 2, 3, 4, 5]) = Inr x)
   \<and> ReadAt demo_ctr [0, 0, 0, 0, 0, 0, 0, 0] 2
       = Some (Inr ([3, 4, 5, 0, 0, 0, 0, 0], 3, Some EOF))
   \<and> snd (snd (c_r demo_ctr [0, 0, 0, 0, 0, 0, 0, 0] 2)) = Some EOF
   \<and> (\<exists>x1. ReadAt_p0 demo_ctr_p0 [0, 0, 0, 0, 0, 0, 0, 0] 2
              = Some (Inr (x1, [3, 4, 5, 0, 0, 0, 0, 0], 3, Some EOF)))
   \<and> snd (snd (p_r demo_ctr_p0 [0, 0, 0, 0, 0, 0, 0, 0] 2)) = Some EOF"
proof -
  let ?blk = "xor_Block 4 90" and ?src = "slice_source [1, 2, 3, 4, 5]"
  let ?p = "[0, 0, 0, 0, 0, 0, 0, 0] :: byte list"
  have ne: "length [0, 0 :: byte] \<noteq> BlockSize ?blk" by simp
  have eq: "length demo_iv = BlockSize ?blk" by (simp add: demo_iv_def)
  from demo_error_read_p0 obtain x1 where
    r0: "ReadAt_p0 demo_ctr_p0 ?p 2 = Some (Inr (x1, [3, 4, 5, 0, 0, 0, 0, 0], 3, Some EOF))"
    by blast
  note a = construction_fails_iff_length_mismatch[of ?blk "[0, 0]" ?src demo_ctr ?p 2
             "[3, 4, 5, 0, 0, 0, 0, 0]" 3 EOF demo_ctr_p0 x1]
  note b = construction_fails_iff_length_mismatch[of ?blk demo_iv ?src demo_ctr ?p 2
             "[3, 4, 5, 0, 0, 0, 0, 0]" 3 EOF demo_ctr_p0 x1]
  have A: "NewCTRReaderAt ?blk [0, 0] ?src = Inl IVLength" using a ne by blast
  have A0: "NewCTRReaderAt_p0 ?blk [0, 0] ?src = Inl IVLength" using a ne by blast
  have B: "\<exists>c. NewCTRReaderAt ?blk demo_iv ?src = Inr c" using b eq by blast
  have B0: "\<exists>x. NewCTRReaderAt_p0 ?blk demo_iv ?src = Inr x" using b eq by blast
  have C: "snd (snd (c_r demo_ctr ?p 2)) = Some EOF" using b demo_error_read by blast
  have C0: "snd (snd (p_r demo_ctr_p0 ?p 2)) = Some EOF" using b r0 by blast
  show ?thesis using ne eq A A0 B B0 C C0 demo_error_read r0 by blast
qed

text \<open>
  C7. From a state whose cursor is inside the buffer and whose counter has the block size,
  \<open>refill\<close> returns the state whose buffer is the unconsumed tail followed by the
  encryptions of the counter, the counter plus one, and so on, as many as fit in the capacity;
  the counter has advanced by the number of blocks, the cursor is zero, and less than one block
  of capacity is left free.
\<close>

theorem refill_shifts_and_fills:
  assumes wf: "wf_Block blk" and bs: "1 \<le> BlockSize blk" and ok: "state_ok blk x"
  shows "\<exists>x1. refill blk x = Some (Inr x1)
           \<and> x_out x1 = drop (nat (x_outUsed x)) (x_out x)
                           @ ks_blocks blk (x_ctr x) (refill_blocks blk x)
           \<and> x_ctr x1 = (increment ^^ refill_blocks blk x) (x_ctr x)
           \<and> x_outUsed x1 = 0
           \<and> cap x1 = cap x
           \<and> cap x1 - length (x_out x1) < BlockSize blk"
proof -
  let ?k = "refill_blocks blk x" and ?bs = "BlockSize blk"
  from refill_wf[OF wf bs ok] obtain x1 where
    r: "refill blk x = Some (Inr x1)"
    and c: "x_ctr x1 = (increment ^^ ?k) (x_ctr x)"
    and o: "x_out x1 = pending x @ ks_blocks blk (x_ctr x) ?k"
    and u: "x_outUsed x1 = 0" and cc: "cap x1 = cap x" by blast
  have lc: "length (x_ctr x) = ?bs" using ok by (simp add: state_ok_def)
  have lk: "length (ks_blocks blk (x_ctr x) ?k) = ?k * ?bs" by (rule ks_blocks_length[OF wf lc])
  have pl: "length (pending x) \<le> cap x" by (simp add: pending_def cap_def)
  have m: "(cap x - length (pending x)) mod ?bs < ?bs" using bs by simp
  have s: "cap x - length (pending x) = ?k * ?bs + (cap x - length (pending x)) mod ?bs"
    by (simp add: refill_blocks_def)
  have "cap x - (length (pending x) + ?k * ?bs) < ?bs" using m s pl by linarith
  then have f: "cap x1 - length (x_out x1) < ?bs" by (simp add: cc o lk)
  show ?thesis using r c o u cc f by (simp add: pending_def)
qed

text \<open>
  C7, on a buffer of capacity 8 that holds one unconsumed byte: three blocks are added.
\<close>

theorem refill_shifts_and_fills_witness:
  "wf_Block (xor_Block 2 90) \<and> 1 \<le> BlockSize (xor_Block 2 90)
   \<and> state_ok (xor_Block 2 90) demo_state
   \<and> (\<exists>x1. refill (xor_Block 2 90) demo_state = Some (Inr x1)
          \<and> x_out x1 = [9, 90, 165, 91, 90, 91, 91]
          \<and> x_ctr x1 = [1, 2]
          \<and> x_outUsed x1 = 0
          \<and> cap x1 = 8
          \<and> cap x1 - length (x_out x1) < 2)"
proof -
  have wf: "wf_Block (xor_Block 2 90)" and bs: "1 \<le> BlockSize (xor_Block 2 90)" by simp_all
  have k: "refill_blocks (xor_Block 2 90) demo_state = Suc (Suc (Suc 0))"
    by (simp add: refill_blocks_def cap_def pending_def demo_state_def)
  have c: "cap demo_state = 8" by (simp add: cap_def demo_state_def)
  have ks: "ks_blocks (xor_Block 2 90) [0, 255] (Suc (Suc (Suc 0))) = [90, 165, 91, 90, 91, 91]"
    by (simp add: increment_demo)
  from refill_shifts_and_fills[OF wf bs demo_state_ok]
  have "\<exists>x1. refill (xor_Block 2 90) demo_state = Some (Inr x1)
          \<and> x_out x1 = [9, 90, 165, 91, 90, 91, 91]
          \<and> x_ctr x1 = [1, 2]
          \<and> x_outUsed x1 = 0
          \<and> cap x1 = 8
          \<and> cap x1 - length (x_out x1) < 2"
    by (simp add: k c) (simp add: demo_state_def ks increment_demo)
  then show ?thesis using wf bs demo_state_ok by blast
qed



text \<open>
  C9, as stated, fails: a read of length zero at an offset after the end of the source
  returns the end-of-file error of the source.
\<close>

theorem zero_length_read_reports_eof:
  "NewCTRReaderAt (xor_Block 4 90) demo_iv (slice_source [1, 2, 3, 4, 5]) = Inr demo_ctr
   \<and> ReadAt demo_ctr [] 7 = Some (Inr ([], 0, Some EOF))"
proof -
  have "ReadAt demo_ctr [] 7 = Some (Inr ([], 0, Some EOF))"
    by (rule ReadAt_zero_length) (simp_all add: demo_ctr_def demo_past_end)
  then show ?thesis by (simp add: demo_ctr_new)
qed

text \<open>
  C9, amended. A read of length zero returns the count and the error that the source
  reports for it, unchanged, and an empty buffer.
\<close>

theorem ReadAt_zero_length_passes_source:
  assumes bs: "1 \<le> BlockSize blk" and off: "0 \<le> off"
  shows "(NewCTRReaderAt blk iv rd = Inr c \<and> rd [] off = (dat, n, err) \<longrightarrow>
            ReadAt c [] off = Some (Inr ([], n, err)))
       \<and> (inv_p0 x \<and> p_b x = blk \<and> p_r x [] off = (dat, n, err) \<longrightarrow>
            (\<exists>x1. ReadAt_p0 x [] off = Some (Inr (x1, [], n, err))))"
proof -
  have a: "NewCTRReaderAt blk iv rd = Inr c \<and> rd [] off = (dat, n, err) \<longrightarrow>
            ReadAt c [] off = Some (Inr ([], n, err))"
  proof
    assume h: "NewCTRReaderAt blk iv rd = Inr c \<and> rd [] off = (dat, n, err)"
    from NewCTRReaderAt_props[of blk iv rd c] h
    have f: "c_b c = blk" "c_r c = rd" "BlockSize blk \<le> c_bs c" by simp_all
    show "ReadAt c [] off = Some (Inr ([], n, err))"
      using bs h by (intro ReadAt_zero_length[OF _ _ off]) (simp_all add: f)
  qed
  have b: "inv_p0 x \<and> p_b x = blk \<and> p_r x [] off = (dat, n, err) \<longrightarrow>
            (\<exists>x1. ReadAt_p0 x [] off = Some (Inr (x1, [], n, err)))"
    using ReadAt_p0_zero_length[of x off dat n err] off by blast
  show ?thesis using a b by blast
qed

text \<open>
  C9, amended, on a read of length zero inside a source of five bytes.
\<close>

theorem ReadAt_zero_length_passes_source_witness:
  "1 \<le> BlockSize (xor_Block 4 90) \<and> (0::int) \<le> 3 \<and> inv_p0 demo_ctr_p0
   \<and> NewCTRReaderAt (xor_Block 4 90) demo_iv (slice_source [1, 2, 3, 4, 5]) = Inr demo_ctr
   \<and> slice_source [1, 2, 3, 4, 5] [] 3 = ([], 0, None)
   \<and> ReadAt demo_ctr [] 3 = Some (Inr ([], 0, None))
   \<and> (\<exists>x1. ReadAt_p0 demo_ctr_p0 [] 3 = Some (Inr (x1, [], 0, None)))"
proof -
  have bs: "1 \<le> BlockSize (xor_Block 4 90)" by simp
  have o: "(0::int) \<le> 3" by simp
  have pb: "p_b demo_ctr_p0 = xor_Block 4 90"
    "p_r demo_ctr_p0 = slice_source [1, 2, 3, 4, 5]" by (simp_all add: demo_ctr_p0_def)
  note z = ReadAt_zero_length_passes_source[OF bs o, of demo_iv "slice_source [1, 2, 3, 4, 5]"
             demo_ctr "[]" 0 None demo_ctr_p0]
  show ?thesis
    using z demo_ctr_new demo_empty_inside demo_ctr_p0_inv by (simp add: pb)
qed

text \<open>
  C10. \<open>XORKeyStream\<close> returns on every input, because every refill leaves a byte to
  consume. In ctr.go this fails for the state that \<open>initCTR\<close> builds for a cipher of block
  size 512 and the offset 1: the capacity of the buffer is 511, a refill of the used-up buffer
  leaves it empty, and \<open>XORKeyStream\<close> on 1000 bytes never returns.
  (\<open>XORKeyStream_returns\<close> above is the termination when one block fits in the capacity.)
\<close>

theorem XORKeyStream_never_returns:
  "NewCTRReaderAt (xor_Block 512 90) (replicate 512 0) wide_src = Inr wide_ctr
   \<and> initCTR wide_ctr 0 1 = Some (Inr wide_state)
   \<and> XORKeyStream (xor_Block 512 90) wide_state (replicate 1000 0) (replicate 1000 0) = None
   \<and> refill (xor_Block 512 90) (wide_state\<lparr>x_outUsed := 511\<rparr>)
       = Some (Inr \<lparr>x_ctr = increment (replicate 512 0), x_out = [], x_spare = replicate 511 90,
                    x_outUsed = 0\<rparr>)"
  by (simp only: wide_ctr_new wide_initCTR wide_XORKeyStream_diverges wide_refill_empty simp_thms)

end
